theory Spec2Isabelle
  imports Main "HOL-Library.Word" "HOL-Library.Sublist" "HOL-Library.Multiset"
begin

unbundle bit_operations_syntax

section \<open>Data structures of huffman.c\<close>

text \<open>
  Bytes are \<open>uint8_t\<close>, frequencies and code patterns \<open>uint32_t\<close>, the original size
  \<open>uint64_t\<close>: all arithmetic on them wraps as in C. A file is the list of its bytes.
  Allocation failure (\<open>die("malloc")\<close>) and I/O failure of the C library are outside the
  model: memory and the two files are assumed to work.
\<close>

type_synonym byte = "8 word"

text \<open>
  \<open>struct Node\<close>: the five fields in the order of the source. A pointer to a node is a
  \<open>Node option\<close>, \<open>None\<close> being \<open>NULL\<close>; the program never shares a node between two
  parents, so the pointer structure is the tree.
\<close>

datatype Node =
  Node (freq: "32 word") (is_leaf: bool) (symbol: "16 word")
       (left: "Node option") (right: "Node option")

definition make_node ::
  "32 word \<Rightarrow> bool \<Rightarrow> 16 word \<Rightarrow> Node option \<Rightarrow> Node option \<Rightarrow> Node" where
  "make_node fr lf sy l r = Node fr lf sy l r"

text \<open>
  The priority queue is the singly linked list of tree pointers, here a \<open>Node list\<close>
  with the head first. \<open>list_insert_sorted\<close> puts the new tree before the first entry
  whose frequency is strictly greater: the test on the head and the test of the
  \<open>while\<close> on \<open>cur->next\<close> are the same comparison, one entry further.
\<close>

fun list_insert_sorted :: "Node list \<Rightarrow> Node \<Rightarrow> Node list" where
  "list_insert_sorted [] tree = [tree]"
| "list_insert_sorted (x # xs) tree =
     (if freq x > freq tree then tree # x # xs
      else x # list_insert_sorted xs tree)"

fun list_pop_front :: "Node list \<Rightarrow> Node option \<times> Node list" where
  "list_pop_front [] = (None, [])"
| "list_pop_front (ln # rest) = (Some ln, rest)"

section \<open>Bit I/O\<close>

text \<open>
  \<open>BitWriter\<close>: \<open>bw_f\<close> is the content of the output file so far (the \<open>FILE *f\<close> of the
  source, which only ever appends), \<open>bw_buf\<close> the byte under construction and
  \<open>bw_bits_filled\<close> the number of bits in it.
\<close>

record BitWriter =
  bw_f :: "byte list"
  bw_buf :: byte
  bw_bits_filled :: nat

definition bw_init :: "byte list \<Rightarrow> BitWriter" where
  "bw_init f = \<lparr>bw_f = f, bw_buf = 0, bw_bits_filled = 0\<rparr>"

definition bw_write_bit :: "BitWriter \<Rightarrow> bool \<Rightarrow> BitWriter" where
  "bw_write_bit bw b =
     (let buf' = push_bit 1 (bw_buf bw) OR (if b then 1 else 0);
          filled = bw_bits_filled bw + 1
      in if filled = 8
         then \<lparr>bw_f = bw_f bw @ [buf'], bw_buf = 0, bw_bits_filled = 0\<rparr>
         else \<lparr>bw_f = bw_f bw, bw_buf = buf', bw_bits_filled = filled\<rparr>)"

text \<open>
  \<open>bw_write_bits\<close> runs \<open>i\<close> from \<open>len - 1\<close> down to \<open>0\<close> and writes
  \<open>(code >> i) & 1\<close>. For \<open>i \<ge> 32\<close> the shift is undefined in C; the model takes the
  mathematical value of the shift, which is \<open>0\<close>.
\<close>

definition bw_write_bits :: "BitWriter \<Rightarrow> 32 word \<Rightarrow> nat \<Rightarrow> BitWriter" where
  "bw_write_bits bw c n =
     fold (\<lambda>i w. bw_write_bit w ((drop_bit i c AND 1) \<noteq> 0)) (rev [0..<n]) bw"

definition bw_flush :: "BitWriter \<Rightarrow> BitWriter" where
  "bw_flush bw =
     (if bw_bits_filled bw > 0
      then \<lparr>bw_f = bw_f bw @ [push_bit (8 - bw_bits_filled bw) (bw_buf bw)],
            bw_buf = 0, bw_bits_filled = 0\<rparr>
      else bw)"

text \<open>
  \<open>BitReader\<close>: \<open>br_f\<close> is the part of the input file not yet read, \<open>br_buf\<close> the
  buffered byte and \<open>br_bits_left\<close> the number of its bits not yet delivered.
\<close>

record BitReader =
  br_f :: "byte list"
  br_buf :: byte
  br_bits_left :: nat

definition br_init :: "byte list \<Rightarrow> BitReader" where
  "br_init f = \<lparr>br_f = f, br_buf = 0, br_bits_left = 0\<rparr>"

text \<open>
  \<open>br_take_bit\<close> is the second half of \<open>br_read_bit\<close>, from \<open>int bit = ...\<close> on: the
  top bit of the buffer is the result, the buffer moves up by one.
\<close>

definition br_take_bit :: "BitReader \<Rightarrow> bool \<times> BitReader" where
  "br_take_bit br =
     ((drop_bit 7 (br_buf br) AND 1) \<noteq> 0,
      br\<lparr>br_buf := push_bit 1 (br_buf br), br_bits_left := br_bits_left br - 1\<rparr>)"

text \<open>
  \<open>br_read_bit\<close>: a failed read (\<open>*ok = 0\<close>, no byte left in the file) is \<open>None\<close>; a
  successful one returns the bit and the new reader.
\<close>

definition br_read_bit :: "BitReader \<Rightarrow> (bool \<times> BitReader) option" where
  "br_read_bit br =
     (if br_bits_left br = 0
      then (case br_f br of
              [] \<Rightarrow> None
            | b # rest \<Rightarrow> Some (br_take_bit \<lparr>br_f = rest, br_buf = b, br_bits_left = 8\<rparr>))
      else Some (br_take_bit br))"

section \<open>Huffman core\<close>

text \<open>
  The \<open>for\<close> loop of \<open>build_huffman_tree\<close> over the 256 table entries, with its two
  variables \<open>pq\<close> and \<open>symbols\<close>.
\<close>

definition collect_leaves :: "32 word list \<Rightarrow> Node list \<times> nat" where
  "collect_leaves fq =
     fold (\<lambda>i (pq, symbols).
              if fq ! i > 0
              then (list_insert_sorted pq (make_node (fq ! i) True (of_nat i) None None),
                    symbols + 1)
              else (pq, symbols))
          [0..<256] ([], 0)"

lemma length_list_insert_sorted:
  "length (list_insert_sorted pq t) = Suc (length pq)"
  by (induction pq) simp_all

text \<open>The \<open>while (pq && pq->next)\<close> loop: pop two, merge, insert.\<close>

function merge_loop :: "Node list \<Rightarrow> Node list" where
  "merge_loop [] = []"
| "merge_loop [a] = [a]"
| "merge_loop (a # b # rest) =
     merge_loop (list_insert_sorted rest
       (make_node (freq a + freq b) False 0 (Some a) (Some b)))"
  by pat_completeness auto
termination
  by (relation "measure length") (simp_all add: length_list_insert_sorted)

text \<open>
  \<open>build_huffman_tree\<close>; \<open>None\<close> is the \<open>NULL\<close> it returns for a table without a
  nonzero entry. \<open>symbols\<close> is the length of \<open>pq\<close>, so with \<open>symbols = 1\<close> the pop
  returns a node (the \<open>None\<close> branch under it stands for the \<open>NULL\<close> the source
  would dereference, and is never taken).
\<close>

definition build_huffman_tree :: "32 word list \<Rightarrow> Node option" where
  "build_huffman_tree fq =
     (case collect_leaves fq of (pq, symbols) \<Rightarrow>
        if symbols = 0 then None
        else if symbols = 1
        then (case fst (list_pop_front pq) of
                None \<Rightarrow> None
              | Some only \<Rightarrow> Some (make_node (freq only) False 0 (Some only) None))
        else fst (list_pop_front (merge_loop pq)))"

text \<open>\<open>struct Code\<close>: the pattern in 32 bits, its length in 8.\<close>

record Code =
  code :: "32 word"
  len :: "8 word"

text \<open>
  \<open>build_codes_dfs\<close> with the table passed through. \<open>table[n->symbol]\<close> is a list
  update at \<open>unat (symbol n)\<close>; every symbol the tree builder stores is below 256.
  \<open>path << 1\<close> drops the top bit of the 32, and \<open>depth + 1\<close> is taken modulo 256, as
  the parameter types \<open>uint32_t\<close> and \<open>uint8_t\<close> say.
\<close>

fun build_codes_dfs :: "Node option \<Rightarrow> Code list \<Rightarrow> 32 word \<Rightarrow> 8 word \<Rightarrow> Code list" where
  "build_codes_dfs None table path depth = table"
| "build_codes_dfs (Some (Node fr lf sy l r)) table path depth =
     (if lf
      then table[unat sy := \<lparr>code = (if depth \<noteq> 0 then path else 0),
                              len = (if depth \<noteq> 0 then depth else 1)\<rparr>]
      else build_codes_dfs r
             (build_codes_dfs l table (push_bit 1 path OR 0) (depth + 1))
             (push_bit 1 path OR 1) (depth + 1))"

definition build_code_table :: "Node option \<Rightarrow> Code list" where
  "build_code_table root =
     (let table = replicate 256 \<lparr>code = 0, len = 0\<rparr>
      in case root of None \<Rightarrow> table | Some n \<Rightarrow> build_codes_dfs root table 0 0)"

section \<open>File header\<close>

text \<open>
  Every way the program stops with \<open>die_msg\<close>, by its message.
\<close>

datatype error =
    Truncated_magic      \<comment> \<open>Invalid or truncated file (magic).\<close>
  | Bad_magic            \<comment> \<open>Not a HUF1 file (bad magic).\<close>
  | Truncated_size       \<comment> \<open>Truncated header (size).\<close>
  | Truncated_freq       \<comment> \<open>Truncated header (freq).\<close>
  | Missing_code         \<comment> \<open>Internal error: missing code.\<close>
  | Missing_tree         \<comment> \<open>Corrupt file: missing Huffman tree.\<close>
  | Unexpected_end       \<comment> \<open>Unexpected end of encoded data.\<close>
  | Corrupt_tree         \<comment> \<open>Corrupt Huffman tree or data.\<close>

definition MAGIC :: "byte list" where
  "MAGIC = [0x48, 0x55, 0x46, 0x31]"

text \<open>
  The source writes the object representation of the two integer types; the format
  comment at the head of the file fixes it as little-endian.
\<close>

definition le_bytes :: "nat \<Rightarrow> 'a::len word \<Rightarrow> byte list" where
  "le_bytes n w = map (\<lambda>k. ucast (drop_bit (8 * k) w)) [0..<n]"

definition le_word :: "byte list \<Rightarrow> 'a::len word" where
  "le_word bs = foldr (\<lambda>b acc. ucast b OR push_bit 8 acc) bs 0"

definition write_header :: "byte list \<Rightarrow> 64 word \<Rightarrow> 32 word list \<Rightarrow> byte list" where
  "write_header out original_size fq =
     out @ MAGIC @ le_bytes 8 original_size
         @ concat (map (\<lambda>i. le_bytes 4 (fq ! i)) [0..<256])"

text \<open>
  The \<open>for\<close> loop of \<open>read_header\<close>: \<open>n\<close> more entries of four bytes each, appended
  to \<open>fq\<close>; a short read is \<open>None\<close>.
\<close>

fun read_freq :: "nat \<Rightarrow> byte list \<Rightarrow> 32 word list \<Rightarrow> (32 word list \<times> byte list) option" where
  "read_freq 0 inp fq = Some (fq, inp)"
| "read_freq (Suc n) inp fq =
     (if length inp < 4 then None
      else read_freq n (drop 4 inp) (fq @ [le_word (take 4 inp)]))"

text \<open>
  \<open>read_header\<close> returns the original size, the frequency table and the unread rest
  of the input, or the error it dies with and the unread rest at that moment (a short
  \<open>fread\<close> has consumed what there was).
\<close>

definition read_header ::
  "byte list \<Rightarrow> (error \<times> byte list) + (64 word \<times> 32 word list \<times> byte list)" where
  "read_header inp =
     (if length inp < 4 then Inl (Truncated_magic, [])
      else if take 4 inp \<noteq> MAGIC then Inl (Bad_magic, drop 4 inp)
      else let inp1 = drop 4 inp in
        if length inp1 < 8 then Inl (Truncated_size, [])
        else let original_size = le_word (take 8 inp1) in
          case read_freq 256 (drop 8 inp1) [] of
            None \<Rightarrow> Inl (Truncated_freq, [])
          | Some (fq, rest) \<Rightarrow> Inr (original_size, fq, rest))"

section \<open>Compression\<close>

text \<open>
  The counting pass. The source reads blocks of up to 32768 bytes and adds the block
  length to \<open>original_size\<close>; counting byte by byte gives the same two values.
\<close>

definition count_step :: "byte \<Rightarrow> 32 word list \<times> 64 word \<Rightarrow> 32 word list \<times> 64 word" where
  "count_step b st = (case st of (fq, original_size) \<Rightarrow>
     (fq[unat b := fq ! unat b + 1], original_size + 1))"

definition count_frequencies :: "byte list \<Rightarrow> 32 word list \<times> 64 word" where
  "count_frequencies inp = fold count_step inp (replicate 256 0, 0)"

text \<open>
  The encoding pass: \<open>Inl\<close> is the writer at the moment of
  \<open>die_msg("Internal error: missing code.")\<close>.
\<close>

fun encode_loop :: "Code list \<Rightarrow> BitWriter \<Rightarrow> byte list \<Rightarrow> BitWriter + BitWriter" where
  "encode_loop table bw [] = Inr bw"
| "encode_loop table bw (b # bs) =
     (let c = table ! unat b
      in if len c = 0 then Inl bw
         else encode_loop table (bw_write_bits bw (code c) (unat (len c))) bs)"

text \<open>
  \<open>compress_file\<close> maps the content of the input file to the way the run ends
  (\<open>None\<close>: it returns; \<open>Some e\<close>: it dies with \<open>e\<close>) and the content of the output
  file at that moment.
\<close>

definition compress_file :: "byte list \<Rightarrow> error option \<times> byte list" where
  "compress_file inp =
     (case count_frequencies inp of (fq, original_size) \<Rightarrow>
        let root = build_huffman_tree fq;
            table = build_code_table root;
            bw = bw_init (write_header [] original_size fq)
        in if original_size > 0
           then (case encode_loop table bw inp of
                   Inl bw' \<Rightarrow> (Some Missing_code, bw_f bw')
                 | Inr bw' \<Rightarrow> (None, bw_f (bw_flush bw')))
           else (None, bw_f (bw_flush bw)))"

section \<open>Decompression\<close>

text \<open>
  The state of the decoding loop: the variables \<open>written\<close>, \<open>cur\<close> and \<open>br\<close>, and the
  content of the output file.
\<close>

record Decoder =
  d_written :: "64 word"
  d_cur :: Node
  d_br :: BitReader
  d_out :: "byte list"

datatype step = Continue Decoder | Stop "error option" Decoder

text \<open>One test of the \<open>while\<close> condition and one pass through the loop body.\<close>

definition decode_step :: "Node \<Rightarrow> 64 word \<Rightarrow> Decoder \<Rightarrow> step" where
  "decode_step root original_size s =
     (if \<not> d_written s < original_size then Stop None s
      else if is_leaf (d_cur s)
      then Continue (s\<lparr>d_written := d_written s + 1, d_cur := root,
                        d_out := d_out s @ [ucast (symbol (d_cur s))]\<rparr>)
      else (case br_read_bit (d_br s) of
              None \<Rightarrow> Stop (Some Unexpected_end) s
            | Some (b, br') \<Rightarrow>
                (case (if \<not> b then left (d_cur s) else right (d_cur s)) of
                   None \<Rightarrow> Stop (Some Corrupt_tree) (s\<lparr>d_br := br'\<rparr>)
                 | Some n \<Rightarrow> Continue (s\<lparr>d_cur := n, d_br := br'\<rparr>))))"

definition bits_available :: "BitReader \<Rightarrow> nat" where
  "bits_available br = 8 * length (br_f br) + br_bits_left br"

definition decode_measure :: "64 word \<Rightarrow> Decoder \<Rightarrow> nat" where
  "decode_measure original_size s =
     unat (original_size - d_written s) + bits_available (d_br s)"

lemma br_read_bit_available:
  "br_read_bit br = Some (b, br') \<Longrightarrow> bits_available br' < bits_available br"
  by (auto simp: br_read_bit_def br_take_bit_def bits_available_def
           split: if_splits list.splits)

lemma decode_step_measure:
  assumes "decode_step root original_size s = Continue s'"
  shows "decode_measure original_size s' < decode_measure original_size s"
proof (cases "is_leaf (d_cur s)")
  case True
  with assms have lt: "d_written s < original_size"
    and s': "s' = s\<lparr>d_written := d_written s + 1, d_cur := root,
                     d_out := d_out s @ [ucast (symbol (d_cur s))]\<rparr>"
    by (auto simp: decode_step_def split: if_splits)
  from lt have "unat (original_size - (d_written s + 1)) < unat (original_size - d_written s)"
    by unat_arith
  with s' show ?thesis by (simp add: decode_measure_def)
next
  case False
  with assms obtain b br' n where "br_read_bit (d_br s) = Some (b, br')"
    and "s' = s\<lparr>d_cur := n, d_br := br'\<rparr>"
    by (auto simp: decode_step_def split: if_splits option.splits)
  then show ?thesis
    using br_read_bit_available [of "d_br s" b br'] by (simp add: decode_measure_def)
qed

function decode_loop :: "Node \<Rightarrow> 64 word \<Rightarrow> Decoder \<Rightarrow> error option \<times> Decoder" where
  "decode_loop root original_size s =
     (case decode_step root original_size s of
        Stop e s' \<Rightarrow> (e, s')
      | Continue s' \<Rightarrow> decode_loop root original_size s')"
  by pat_completeness auto
termination
  by (relation "measure (\<lambda>(root, original_size, s). decode_measure original_size s)")
     (simp_all add: decode_step_measure)

declare decode_loop.simps [simp del]

text \<open>
  \<open>decompress_file\<close> maps the content of the input file to the way the run ends, the
  content of the output file at that moment, and the part of the input that was not
  read.
\<close>

definition decompress_file :: "byte list \<Rightarrow> error option \<times> byte list \<times> byte list" where
  "decompress_file inp =
     (case read_header inp of
        Inl (e, rest) \<Rightarrow> (Some e, [], rest)
      | Inr (original_size, fq, rest) \<Rightarrow>
          let root = build_huffman_tree fq
          in if original_size = 0 then (None, [], rest)
             else (case root of
                     None \<Rightarrow> (Some Missing_tree, [], rest)
                   | Some r \<Rightarrow>
                       (case decode_loop r original_size
                               \<lparr>d_written = 0, d_cur = r, d_br = br_init rest, d_out = []\<rparr> of
                          (e, s) \<Rightarrow> (e, d_out s, br_f (d_br s)))))"

section \<open>The header: layout and reading back\<close>

lemma le_word_Nil: "le_word [] = 0"
  by (simp add: le_word_def)

lemma le_word_Cons: "le_word (b # bs) = ucast b OR push_bit 8 (le_word bs)"
  by (simp add: le_word_def)

lemma bit_le_word:
  "bit (le_word bs :: 'a::len word) k \<longleftrightarrow>
     k < LENGTH('a) \<and> k div 8 < length bs \<and> bit (bs ! (k div 8)) (k mod 8)"
proof (induction bs arbitrary: k)
  case Nil
  show ?case by (simp add: le_word_Nil)
next
  case (Cons b bs)
  show ?case
  proof (cases "k < 8")
    case True
    then have "k div 8 = 0" "k mod 8 = k" by simp_all
    with True show ?thesis
      by (auto simp: le_word_Cons bit_simps dest: bit_imp_le_length)
  next
    case False
    then have d: "k div 8 = Suc ((k - 8) div 8)" and m: "k mod 8 = (k - 8) mod 8"
      by (simp_all add: le_div_geq le_mod_geq)
    have "bit (le_word (b # bs) :: 'a word) k \<longleftrightarrow>
            k < LENGTH('a) \<and> bit (le_word bs :: 'a word) (k - 8)"
      using False by (auto simp: le_word_Cons bit_simps dest: bit_imp_le_length)
    also have "\<dots> \<longleftrightarrow> k < LENGTH('a) \<and> (k - 8) div 8 < length bs
                     \<and> bit (bs ! ((k - 8) div 8)) ((k - 8) mod 8)"
      using False by (auto simp: Cons.IH)
    finally show ?thesis by (simp add: d m)
  qed
qed

lemma length_le_bytes: "length (le_bytes n w) = n"
  by (simp add: le_bytes_def)

lemma bit_le_bytes:
  "j < n \<Longrightarrow> bit (le_bytes n w ! j) i \<longleftrightarrow> i < 8 \<and> bit w (8 * j + i)"
  by (auto simp: le_bytes_def bit_simps)

lemma le_word_le_bytes:
  assumes "LENGTH('a::len) \<le> 8 * n"
  shows "le_word (le_bytes n (w :: 'a word)) = w"
proof (rule bit_word_eqI)
  fix k assume k: "k < LENGTH('a)"
  with assms have "k div 8 < n" by simp
  then show "bit (le_word (le_bytes n w) :: 'a word) k = bit w k"
    using k by (simp add: bit_le_word bit_le_bytes length_le_bytes)
qed

lemma length_concat_const:
  "(\<And>x. x \<in> set xs \<Longrightarrow> length (f x) = k) \<Longrightarrow> length (concat (map f xs)) = k * length xs"
  by (induction xs) simp_all

lemma length_write_header: "length (write_header out sz fq) = length out + 1036"
  by (simp add: write_header_def MAGIC_def length_le_bytes length_concat_const [where k = 4])

text \<open>The table stored in a header, entry \<open>i\<close> at offset \<open>12 + 4 * i\<close>.\<close>

definition header_freq :: "byte list \<Rightarrow> 32 word list" where
  "header_freq inp = map (\<lambda>i. le_word (take 4 (drop (12 + 4 * i) inp))) [0..<256]"

definition header_size :: "byte list \<Rightarrow> 64 word" where
  "header_size inp = le_word (take 8 (drop 4 inp))"

lemma read_freq_eq:
  "read_freq n inp fq =
     (if length inp < 4 * n then None
      else Some (fq @ map (\<lambda>i. le_word (take 4 (drop (4 * i) inp))) [0..<n], drop (4 * n) inp))"
proof (induction n arbitrary: inp fq)
  case 0
  show ?case by simp
next
  case (Suc n)
  have "map (\<lambda>i. le_word (take 4 (drop (4 * i) inp)) :: 32 word) [0..<Suc n] =
        le_word (take 4 inp) # map (\<lambda>i. le_word (take 4 (drop (4 * i) (drop 4 inp)))) [0..<n]"
    by (simp add: upt_conv_Cons map_Suc_upt [symmetric] add.commute del: upt_Suc)
  then show ?case
    by (auto simp: Suc.IH add.commute simp del: upt_Suc)
qed

lemma read_header_ok:
  assumes "1036 \<le> length inp" and "take 4 inp = MAGIC"
  shows "read_header inp = Inr (header_size inp, header_freq inp, drop 1036 inp)"
  using assms
  by (auto simp: read_header_def read_freq_eq header_size_def header_freq_def Let_def add.commute)

lemma read_header_fail:
  assumes "length inp < 1036 \<or> take 4 inp \<noteq> MAGIC"
  shows "\<exists>rest. read_header inp =
           Inl (if length inp < 4 then Truncated_magic
                else if take 4 inp \<noteq> MAGIC then Bad_magic
                else if length inp < 12 then Truncated_size
                else Truncated_freq, rest)"
  using assms
  by (auto simp: read_header_def read_freq_eq Let_def)

lemma nth_concat_le_bytes:
  assumes "i < n"
  shows "take 4 (drop (4 * i) (concat (map (\<lambda>j. le_bytes 4 (f j)) [0..<n]) @ p)) = le_bytes 4 (f i)"
  using assms
proof (induction n arbitrary: i f)
  case 0
  then show ?case by simp
next
  case (Suc n)
  have split: "concat (map (\<lambda>j. le_bytes 4 (f j)) [0..<Suc n]) =
               le_bytes 4 (f 0) @ concat (map (\<lambda>j. le_bytes 4 (f (Suc j))) [0..<n])"
    by (simp add: upt_conv_Cons map_Suc_upt [symmetric] comp_def del: upt_Suc)
  show ?case
  proof (cases i)
    case 0
    then show ?thesis by (simp add: split length_le_bytes del: upt_Suc)
  next
    case (Suc i')
    with Suc.prems have "i' < n" by simp
    from Suc.IH [OF this, of "\<lambda>j. f (Suc j)"] show ?thesis
      by (simp add: split Suc length_le_bytes del: upt_Suc)
  qed
qed

lemma header_parts:
  "take 4 (write_header [] sz fq @ p) = MAGIC"
  "header_size (write_header [] sz fq @ p) = sz"
  "header_freq (write_header [] sz fq @ p) = map (\<lambda>i. fq ! i) [0..<256]"
  "drop 1036 (write_header [] sz fq @ p) = p"
proof -
  let ?h = "write_header [] sz fq"
  show "take 4 (?h @ p) = MAGIC"
    by (simp add: write_header_def MAGIC_def)
  show "header_size (?h @ p) = sz"
    by (simp add: write_header_def MAGIC_def header_size_def length_le_bytes le_word_le_bytes)
  show "drop 1036 (?h @ p) = p"
    using length_write_header [of "[]" sz fq] by simp
  have "\<And>i. i < 256 \<Longrightarrow>
          take 4 (drop (12 + 4 * i) (?h @ p)) = le_bytes 4 (fq ! i)"
  proof -
    fix i :: nat assume "i < 256"
    have "drop 12 (?h @ p) = concat (map (\<lambda>j. le_bytes 4 (fq ! j)) [0..<256]) @ p"
      by (simp add: write_header_def MAGIC_def length_le_bytes)
    moreover have "drop (12 + 4 * i) (?h @ p) = drop (4 * i) (drop 12 (?h @ p))"
      by (simp only: drop_drop add.commute)
    ultimately have "drop (12 + 4 * i) (?h @ p) =
          drop (4 * i) (concat (map (\<lambda>j. le_bytes 4 (fq ! j)) [0..<256]) @ p)"
      by (simp only:)
    then show "take 4 (drop (12 + 4 * i) (?h @ p)) = le_bytes 4 (fq ! i)"
      using nth_concat_le_bytes [OF \<open>i < 256\<close>, of "\<lambda>j. fq ! j" p] by simp
  qed
  then show "header_freq (?h @ p) = map (\<lambda>i. fq ! i) [0..<256]"
    by (simp add: header_freq_def le_word_le_bytes)
qed

lemma read_header_write_header:
  assumes "length fq = 256"
  shows "read_header (write_header [] sz fq @ p) = Inr (sz, fq, p)"
proof -
  have "map (\<lambda>i. fq ! i) [0..<256] = fq"
    using assms map_nth [of fq] by simp
  moreover have "read_header (write_header [] sz fq @ p) =
      Inr (header_size (write_header [] sz fq @ p), header_freq (write_header [] sz fq @ p),
           drop 1036 (write_header [] sz fq @ p))"
    by (rule read_header_ok) (simp add: length_write_header, rule header_parts)
  ultimately show ?thesis
    by (simp only: header_parts)
qed

section \<open>The payload apart from the header\<close>

text \<open>
  The bit writer only appends to its file, so what \<open>compress_file\<close> writes after the
  header does not depend on the header: \<open>compress_payload\<close> is the same run on an
  empty file. Likewise \<open>decode_body\<close> is \<open>decompress_file\<close> from the point where the
  header has been read.
\<close>

definition bw_shift :: "byte list \<Rightarrow> BitWriter \<Rightarrow> BitWriter" where
  "bw_shift out bw = bw\<lparr>bw_f := out @ bw_f bw\<rparr>"

definition compress_payload :: "byte list \<Rightarrow> error option \<times> byte list" where
  "compress_payload inp =
     (case count_frequencies inp of (fq, original_size) \<Rightarrow>
        let table = build_code_table (build_huffman_tree fq)
        in if original_size > 0
           then (case encode_loop table (bw_init []) inp of
                   Inl bw' \<Rightarrow> (Some Missing_code, bw_f bw')
                 | Inr bw' \<Rightarrow> (None, bw_f (bw_flush bw')))
           else (None, []))"

definition decode_body ::
  "64 word \<Rightarrow> 32 word list \<Rightarrow> byte list \<Rightarrow> error option \<times> byte list \<times> byte list" where
  "decode_body original_size fq rest =
     (if original_size = 0 then (None, [], rest)
      else (case build_huffman_tree fq of
              None \<Rightarrow> (Some Missing_tree, [], rest)
            | Some r \<Rightarrow>
                (case decode_loop r original_size
                        \<lparr>d_written = 0, d_cur = r, d_br = br_init rest, d_out = []\<rparr> of
                   (e, s) \<Rightarrow> (e, d_out s, br_f (d_br s)))))"

lemma bw_init_shift: "bw_init out = bw_shift out (bw_init [])"
  by (simp add: bw_init_def bw_shift_def)

lemma bw_write_bit_shift:
  "bw_write_bit (bw_shift out bw) b = bw_shift out (bw_write_bit bw b)"
  by (simp add: bw_write_bit_def bw_shift_def Let_def)

lemma bw_write_bits_shift:
  "bw_write_bits (bw_shift out bw) c n = bw_shift out (bw_write_bits bw c n)"
proof -
  have "fold (\<lambda>i w. bw_write_bit w ((drop_bit i c AND 1) \<noteq> 0)) is (bw_shift out bw) =
        bw_shift out (fold (\<lambda>i w. bw_write_bit w ((drop_bit i c AND 1) \<noteq> 0)) is bw)" for "is"
    by (induction "is" arbitrary: bw) (simp_all add: bw_write_bit_shift)
  then show ?thesis by (simp add: bw_write_bits_def)
qed

lemma bw_flush_shift: "bw_flush (bw_shift out bw) = bw_shift out (bw_flush bw)"
  by (simp add: bw_flush_def bw_shift_def)

lemma encode_loop_shift:
  "encode_loop table (bw_shift out bw) inp =
     map_sum (bw_shift out) (bw_shift out) (encode_loop table bw inp)"
  by (induction inp arbitrary: bw) (simp_all add: Let_def bw_write_bits_shift)

lemma bw_f_shift: "bw_f (bw_shift out bw) = out @ bw_f bw"
  by (simp add: bw_shift_def)

lemma compress_file_payload:
  "compress_file inp =
     (fst (compress_payload inp),
      write_header [] (snd (count_frequencies inp)) (fst (count_frequencies inp))
        @ snd (compress_payload inp))"
proof (cases "count_frequencies inp")
  case (Pair fq original_size)
  show ?thesis
  proof (cases "encode_loop (build_code_table (build_huffman_tree fq)) (bw_init []) inp")
    case (Inl bw')
    then show ?thesis
      by (simp add: compress_file_def compress_payload_def Pair Let_def
            bw_init_shift [of "write_header [] original_size fq"] encode_loop_shift
            bw_flush_shift bw_f_shift)
         (simp add: bw_init_def bw_flush_def bw_shift_def)
  next
    case (Inr bw')
    then show ?thesis
      by (simp add: compress_file_def compress_payload_def Pair Let_def
            bw_init_shift [of "write_header [] original_size fq"] encode_loop_shift
            bw_flush_shift bw_f_shift)
         (simp add: bw_init_def bw_flush_def bw_shift_def)
  qed
qed

lemma decompress_file_ok:
  assumes "1036 \<le> length inp" and "take 4 inp = MAGIC"
  shows "decompress_file inp = decode_body (header_size inp) (header_freq inp) (drop 1036 inp)"
  by (simp add: decompress_file_def decode_body_def read_header_ok [OF assms])

lemma decompress_file_container:
  assumes "length fq = 256"
  shows "decompress_file (write_header [] sz fq @ p) = decode_body sz fq p"
  by (simp add: decompress_file_def decode_body_def read_header_write_header [OF assms])

text \<open>The decoding loop ends in one of three ways.\<close>

lemma decode_loop_status:
  "fst (decode_loop root original_size s) \<in> {None, Some Unexpected_end, Some Corrupt_tree}"
proof (induction root original_size s rule: decode_loop.induct)
  case (1 root original_size s)
  show ?case
  proof (cases "decode_step root original_size s")
    case (Continue s')
    with "1.IH" show ?thesis by (subst decode_loop.simps) simp
  next
    case (Stop e s')
    then have "e \<in> {None, Some Unexpected_end, Some Corrupt_tree}"
      by (auto simp: decode_step_def split: if_splits option.splits)
    with Stop show ?thesis by (subst decode_loop.simps) simp
  qed
qed

lemma le_word_zeros: "le_word (replicate n 0) = 0"
  by (induction n) (simp_all add: le_word_Nil le_word_Cons)

section \<open>The claims about the container format\<close>

text \<open>
  C2, as the specification states it: the header the encoder writes (magic, original
  size, 256 frequency entries) is exactly 1032 bytes long for every input. This is
  false: the container of the empty input is the header alone and has another length.
\<close>

theorem header_length_1032_counterexample:
  "compress_file [] = (None, write_header [] 0 (replicate 256 0)) \<and>
   length (write_header [] 0 (replicate 256 0)) \<noteq> 1032"
  by (simp add: compress_file_payload compress_payload_def count_frequencies_def
        length_write_header)

text \<open>
  C2, amended: the header is exactly 1036 bytes long (4 of magic, 8 of size and
  256 times 4 of frequencies) for every original size and table, and every container
  the encoder writes, whatever the input, starts with this header for the size and the
  table of the counting pass; the payload follows it.
\<close>

theorem header_length_1036:
  "length (write_header [] original_size fq) = 1036 \<and>
   (\<exists>payload. snd (compress_file inp) =
      write_header [] (snd (count_frequencies inp)) (fst (count_frequencies inp)) @ payload)"
  by (simp add: length_write_header compress_file_payload)

text \<open>
  C8: an input whose first four bytes are not \<open>HUF1\<close>, or that is shorter than the
  1036 bytes of a header, makes \<open>decompress_file\<close> die with one of the four header
  errors (which one is decided in the order of the reads), and the output file is
  empty at that moment.
\<close>

theorem bad_header_rejected:
  assumes "take 4 inp \<noteq> MAGIC \<or> length inp < 1036"
  shows "fst (decompress_file inp) =
           Some (if length inp < 4 then Truncated_magic
                 else if take 4 inp \<noteq> MAGIC then Bad_magic
                 else if length inp < 12 then Truncated_size
                 else Truncated_freq)
         \<and> fst (snd (decompress_file inp)) = []"
proof -
  from assms have "length inp < 1036 \<or> take 4 inp \<noteq> MAGIC" by blast
  from read_header_fail [OF this] obtain rest where
    "read_header inp =
       Inl (if length inp < 4 then Truncated_magic
            else if take 4 inp \<noteq> MAGIC then Bad_magic
            else if length inp < 12 then Truncated_size
            else Truncated_freq, rest)" ..
  then show ?thesis by (simp add: decompress_file_def)
qed

theorem bad_header_rejected_witness:
  "fst (decompress_file ([0x58, 0x55, 0x46, 0x31] @ replicate 1032 0)) = Some Bad_magic \<and>
   fst (snd (decompress_file ([0x58, 0x55, 0x46, 0x31] @ replicate 1032 0))) = [] \<and>
   fst (decompress_file (MAGIC @ replicate 1031 0)) = Some Truncated_freq \<and>
   fst (snd (decompress_file (MAGIC @ replicate 1031 0))) = []"
  using bad_header_rejected [of "[0x58, 0x55, 0x46, 0x31] @ replicate 1032 0"]
    bad_header_rejected [of "MAGIC @ replicate 1031 0"]
  by (simp add: MAGIC_def)

text \<open>
  C10: a container with the magic, a complete header and declared original size 0
  decodes to the empty output and leaves the whole payload unread, whatever its
  frequency table holds; and the run dies with "missing Huffman tree" exactly when the
  header is valid, the declared size is not 0 and the table builds no tree.
\<close>

theorem size_zero_decodes_to_nothing:
  "(1036 \<le> length inp \<and> take 4 inp = MAGIC \<and> header_size inp = 0 \<longrightarrow>
      decompress_file inp = (None, [], drop 1036 inp)) \<and>
   (fst (decompress_file inp) = Some Missing_tree \<longleftrightarrow>
      1036 \<le> length inp \<and> take 4 inp = MAGIC \<and> header_size inp \<noteq> 0 \<and>
      build_huffman_tree (header_freq inp) = None)"
proof (cases "1036 \<le> length inp \<and> take 4 inp = MAGIC")
  case True
  then have eq: "decompress_file inp =
      decode_body (header_size inp) (header_freq inp) (drop 1036 inp)"
    by (simp add: decompress_file_ok)
  have "decode_loop r sz s \<noteq> (Some Missing_tree, s')" for r sz s s'
    using decode_loop_status [of r sz s] by auto
  then show ?thesis
    using True by (auto simp: eq decode_body_def split: option.splits prod.splits)
next
  case False
  then have "take 4 inp \<noteq> MAGIC \<or> length inp < 1036" by auto
  from read_header_fail obtain rest where
    "read_header inp =
       Inl (if length inp < 4 then Truncated_magic
            else if take 4 inp \<noteq> MAGIC then Bad_magic
            else if length inp < 12 then Truncated_size
            else Truncated_freq, rest)"
    using False by (metis linorder_not_le)
  then have "fst (decompress_file inp) \<noteq> Some Missing_tree"
    by (simp add: decompress_file_def)
  with False show ?thesis by auto
qed

theorem size_zero_decodes_to_nothing_witness:
  "decompress_file (MAGIC @ replicate 8 0 @ replicate 1024 1 @ [0xFF]) = (None, [], [0xFF])"
proof -
  let ?inp = "MAGIC @ replicate 8 0 @ replicate 1024 1 @ [0xFF :: byte]"
  have "1036 \<le> length ?inp" "take 4 ?inp = MAGIC" "drop 1036 ?inp = [0xFF]"
    by (simp_all add: MAGIC_def)
  moreover have "header_size ?inp = 0"
    by (simp add: header_size_def MAGIC_def le_word_zeros)
  ultimately show ?thesis
    using size_zero_decodes_to_nothing [of ?inp] by simp
qed

section \<open>The worked example of the specification\<close>

text \<open>The five bytes \<open>AAABC\<close>, stage by stage.\<close>

lemma aaabc_count:
  "count_frequencies [0x41, 0x41, 0x41, 0x42, 0x43] =
     ((replicate 256 0)[0x41 := 3, 0x42 := 1, 0x43 := 1], 5)"
  by (simp add: count_frequencies_def count_step_def)

lemma aaabc_leaves:
  "collect_leaves ((replicate 256 0)[0x41 := 3, 0x42 := 1, 0x43 := 1]) =
     ([Node 1 True 0x42 None None, Node 1 True 0x43 None None, Node 3 True 0x41 None None], 3)"
  by code_simp

lemma aaabc_tree:
  "build_huffman_tree ((replicate 256 0)[0x41 := 3, 0x42 := 1, 0x43 := 1]) =
     Some (Node 5 False 0
            (Some (Node 2 False 0 (Some (Node 1 True 0x42 None None))
                                  (Some (Node 1 True 0x43 None None))))
            (Some (Node 3 True 0x41 None None)))"
  by (simp add: build_huffman_tree_def aaabc_leaves make_node_def)

lemma aaabc_table:
  "build_code_table
     (Some (Node 5 False 0
             (Some (Node 2 False 0 (Some (Node 1 True 0x42 None None))
                                   (Some (Node 1 True 0x43 None None))))
             (Some (Node 3 True 0x41 None None)))) =
   (replicate 256 \<lparr>code = 0, len = 0\<rparr>)
     [0x42 := \<lparr>code = 0, len = 2\<rparr>, 0x43 := \<lparr>code = 1, len = 2\<rparr>,
      0x41 := \<lparr>code = 1, len = 1\<rparr>]"
  by (simp add: build_code_table_def)

lemma aaabc_bits:
  "encode_loop
     ((replicate 256 \<lparr>code = 0, len = 0\<rparr>)
        [0x42 := \<lparr>code = 0, len = 2\<rparr>, 0x43 := \<lparr>code = 1, len = 2\<rparr>,
         0x41 := \<lparr>code = 1, len = 1\<rparr>])
     (bw_init []) [0x41, 0x41, 0x41, 0x42, 0x43] =
   Inr \<lparr>bw_f = [], bw_buf = 0x71, bw_bits_filled = 7\<rparr>"
  by (simp add: bw_init_def bw_write_bits_def bw_write_bit_def Let_def upt_rec)

lemma aaabc_payload: "compress_payload [0x41, 0x41, 0x41, 0x42, 0x43] = (None, [0xE2])"
  by (simp only: compress_payload_def aaabc_count prod.case aaabc_tree aaabc_table Let_def
        aaabc_bits)
     (simp add: bw_flush_def)

lemma aaabc_decode:
  "decode_body 5 ((replicate 256 0)[0x41 := 3, 0x42 := 1, 0x43 := 1]) [0xE2] =
     (None, [0x41, 0x41, 0x41, 0x42, 0x43], [])"
  by (simp only: decode_body_def aaabc_tree)
     (simp add: decode_loop.simps decode_step_def br_init_def br_read_bit_def br_take_bit_def)

text \<open>
  C6: for the input \<open>[0x41, 0x41, 0x41, 0x42, 0x43]\<close> the counting pass gives
  \<open>0x41: 3, 0x42: 1, 0x43: 1\<close> and size 5; the queue holds the two leaves of
  frequency 1 first, \<open>0x42\<close> (inserted earlier) before \<open>0x43\<close>; the builder merges
  these two and then merges the pair (left) with the leaf \<open>0x41\<close> (right); the codes
  are \<open>1\<close> for \<open>0x41\<close> (one bit), \<open>00\<close> for \<open>0x42\<close> and \<open>01\<close> for \<open>0x43\<close> (two
  bits); the encoding pass leaves 7 bits \<open>1110001\<close> in the writer, no byte written
  yet; the flush pads them to the single payload byte \<open>0xE2\<close> after the header; and
  decompressing the container gives the five bytes back, with nothing left unread.
\<close>

theorem aaabc_scenario:
  "count_frequencies [0x41, 0x41, 0x41, 0x42, 0x43] =
     ((replicate 256 0)[0x41 := 3, 0x42 := 1, 0x43 := 1], 5) \<and>
   fst (collect_leaves ((replicate 256 0)[0x41 := 3, 0x42 := 1, 0x43 := 1])) =
     [Node 1 True 0x42 None None, Node 1 True 0x43 None None, Node 3 True 0x41 None None] \<and>
   build_huffman_tree ((replicate 256 0)[0x41 := 3, 0x42 := 1, 0x43 := 1]) =
     Some (Node 5 False 0
            (Some (Node 2 False 0 (Some (Node 1 True 0x42 None None))
                                  (Some (Node 1 True 0x43 None None))))
            (Some (Node 3 True 0x41 None None))) \<and>
   map (\<lambda>b. build_code_table (build_huffman_tree
               ((replicate 256 0)[0x41 := 3, 0x42 := 1, 0x43 := 1])) ! unat b)
       [0x41 :: byte, 0x42, 0x43] =
     [\<lparr>code = 1, len = 1\<rparr>, \<lparr>code = 0, len = 2\<rparr>, \<lparr>code = 1, len = 2\<rparr>] \<and>
   encode_loop (build_code_table (build_huffman_tree
                  ((replicate 256 0)[0x41 := 3, 0x42 := 1, 0x43 := 1])))
       (bw_init []) [0x41, 0x41, 0x41, 0x42, 0x43] =
     Inr \<lparr>bw_f = [], bw_buf = 0x71, bw_bits_filled = 7\<rparr> \<and>
   compress_file [0x41, 0x41, 0x41, 0x42, 0x43] =
     (None, write_header [] 5 ((replicate 256 0)[0x41 := 3, 0x42 := 1, 0x43 := 1]) @ [0xE2]) \<and>
   decompress_file (snd (compress_file [0x41, 0x41, 0x41, 0x42, 0x43])) =
     (None, [0x41, 0x41, 0x41, 0x42, 0x43], [])"
proof -
  have container: "compress_file [0x41, 0x41, 0x41, 0x42, 0x43] =
     (None, write_header [] 5 ((replicate 256 0)[0x41 := 3, 0x42 := 1, 0x43 := 1]) @ [0xE2])"
    by (simp only: compress_file_payload aaabc_count aaabc_payload fst_conv snd_conv)
  have codes: "map (\<lambda>b. build_code_table (build_huffman_tree
               ((replicate 256 0)[0x41 := 3, 0x42 := 1, 0x43 := 1])) ! unat b)
       [0x41 :: byte, 0x42, 0x43] =
     [\<lparr>code = 1, len = 1\<rparr>, \<lparr>code = 0, len = 2\<rparr>, \<lparr>code = 1, len = 2\<rparr>]"
    by (simp only: aaabc_tree aaabc_table) simp
  have restored: "decompress_file (snd (compress_file [0x41, 0x41, 0x41, 0x42, 0x43])) =
     (None, [0x41, 0x41, 0x41, 0x42, 0x43], [])"
    by (simp only: container snd_conv) (simp add: decompress_file_container aaabc_decode)
  have leaves: "fst (collect_leaves ((replicate 256 0)[0x41 := 3, 0x42 := 1, 0x43 := 1])) =
     [Node 1 True 0x42 None None, Node 1 True 0x43 None None, Node 3 True 0x41 None None]"
    by (simp only: aaabc_leaves fst_conv)
  have bits: "encode_loop (build_code_table (build_huffman_tree
                  ((replicate 256 0)[0x41 := 3, 0x42 := 1, 0x43 := 1])))
       (bw_init []) [0x41, 0x41, 0x41, 0x42, 0x43] =
     Inr \<lparr>bw_f = [], bw_buf = 0x71, bw_bits_filled = 7\<rparr>"
    by (simp only: aaabc_tree aaabc_table aaabc_bits)
  show ?thesis
    by (intro conjI) (fact aaabc_count leaves aaabc_tree codes bits container restored)+
qed

section \<open>The shape of the tree\<close>

text \<open>
  \<open>full_tree\<close>: a leaf has no children and a symbol below 256; a node that is not a
  leaf has symbol field 0 and two children, both of them such trees. \<open>single_root\<close>:
  the root made for a table with one symbol: not a leaf, symbol field 0, no right
  child, and a leaf of the same frequency as left child.
\<close>

fun full_tree :: "Node \<Rightarrow> bool" where
  "full_tree (Node fr lf sy l r) =
     (if lf then l = None \<and> r = None \<and> sy < 256
      else sy = 0 \<and>
           (case l of None \<Rightarrow> False
            | Some a \<Rightarrow> (case r of None \<Rightarrow> False | Some b \<Rightarrow> full_tree a \<and> full_tree b)))"

fun single_root :: "Node \<Rightarrow> bool" where
  "single_root (Node fr lf sy l r) =
     (\<not> lf \<and> sy = 0 \<and> r = None \<and>
      (case l of None \<Rightarrow> False
       | Some a \<Rightarrow> is_leaf a \<and> left a = None \<and> right a = None \<and> symbol a < 256 \<and> freq a = fr))"

text \<open>
  The indices the \<open>for\<close> loop of \<open>build_huffman_tree\<close> makes a leaf for, in the order
  of the loop, and the leaf it makes.
\<close>

definition nonzero_symbols :: "32 word list \<Rightarrow> nat list" where
  "nonzero_symbols fq = filter (\<lambda>i. fq ! i > 0) [0..<256]"

definition leaf_of :: "32 word list \<Rightarrow> nat \<Rightarrow> Node" where
  "leaf_of fq i = make_node (fq ! i) True (of_nat i) None None"

lemma collect_fold:
  "fold (\<lambda>i (pq, symbols).
            if fq ! i > 0
            then (list_insert_sorted pq (make_node (fq ! i) True (of_nat i) None None), symbols + 1)
            else (pq, symbols)) xs (pq0, n0) =
   (foldl list_insert_sorted pq0 (map (leaf_of fq) (filter (\<lambda>i. fq ! i > 0) xs)),
    n0 + length (filter (\<lambda>i. fq ! i > 0) xs))"
  by (induction xs arbitrary: pq0 n0) (simp_all add: leaf_of_def)

lemma collect_leaves_eq:
  "collect_leaves fq =
     (foldl list_insert_sorted [] (map (leaf_of fq) (nonzero_symbols fq)),
      length (nonzero_symbols fq))"
  by (simp add: collect_leaves_def nonzero_symbols_def collect_fold)

lemma set_list_insert_sorted: "set (list_insert_sorted pq t) = insert t (set pq)"
  by (induction pq) auto

lemma set_foldl_insert: "set (foldl list_insert_sorted pq ts) = set pq \<union> set ts"
  by (induction ts arbitrary: pq) (simp_all add: set_list_insert_sorted)

lemma length_foldl_insert: "length (foldl list_insert_sorted pq ts) = length pq + length ts"
  by (induction ts arbitrary: pq) (simp_all add: length_list_insert_sorted)

lemma symbol_small: "i < 256 \<Longrightarrow> (of_nat i :: 16 word) < 256"
  by (simp add: word_less_nat_alt unat_of_nat)

lemma full_tree_leaf_of: "i < 256 \<Longrightarrow> full_tree (leaf_of fq i)"
  by (simp add: leaf_of_def make_node_def symbol_small)

lemma nonzero_symbols_small: "i \<in> set (nonzero_symbols fq) \<Longrightarrow> i < 256"
  by (simp add: nonzero_symbols_def)

lemma merge_loop_full:
  "(\<And>t. t \<in> set pq \<Longrightarrow> full_tree t) \<Longrightarrow> t \<in> set (merge_loop pq) \<Longrightarrow> full_tree t"
proof (induction pq arbitrary: t rule: merge_loop.induct)
  case 1
  then show ?case by simp
next
  case (2 a)
  then show ?case by simp
next
  case (3 a b rest)
  let ?p = "make_node (freq a + freq b) False 0 (Some a) (Some b)"
  have "full_tree ?p"
    using "3.prems"(1) [of a] "3.prems"(1) [of b] by (simp add: make_node_def)
  then have "\<And>u. u \<in> set (list_insert_sorted rest ?p) \<Longrightarrow> full_tree u"
    using "3.prems"(1) by (auto simp: set_list_insert_sorted)
  then show ?case
    using "3.IH" "3.prems"(2) by simp
qed

lemma list_insert_sorted_not_Nil: "list_insert_sorted pq t \<noteq> []"
  by (cases pq) simp_all

lemma length_merge_loop: "length (merge_loop pq) = (if pq = [] then 0 else 1)"
  by (induction pq rule: merge_loop.induct) (simp_all add: list_insert_sorted_not_Nil)

lemma merge_loop_single: "pq \<noteq> [] \<Longrightarrow> \<exists>r. merge_loop pq = [r]"
  using length_merge_loop [of pq] by (cases "merge_loop pq") auto

lemma single_symbol_table: "collect_leaves ((replicate 256 0)[0x41 := 1]) = ([Node 1 True 0x41 None None], 1)"
  by code_simp

text \<open>
  A table with exactly one nonzero entry, that of \<open>i\<close>: the tree is the root over the
  leaf of \<open>i\<close>, both with the frequency of \<open>i\<close>.
\<close>

lemma filter_upt_single: "k < n \<Longrightarrow> filter (\<lambda>i. i = k) [0..<n] = [k]"
proof (induction n)
  case 0
  then show ?case by simp
next
  case (Suc n)
  show ?case
  proof (cases "k < n")
    case True
    with Suc.IH show ?thesis by simp
  next
    case False
    with Suc.prems have "k = n" by simp
    moreover have "filter (\<lambda>i. i = n) [0..<n] = []"
      by (simp add: filter_empty_conv)
    ultimately show ?thesis by simp
  qed
qed

lemma nonzero_symbols_single:
  assumes "k < 256" and "v \<noteq> 0"
  shows "nonzero_symbols ((replicate 256 0)[k := v]) = [k]"
proof -
  have "filter (\<lambda>i. (replicate 256 0)[k := v] ! i > 0) [0..<256] = filter (\<lambda>i. i = k) [0..<256]"
    by (rule filter_cong [OF refl])
       (use assms in \<open>auto simp: nth_list_update word_greater_zero_iff\<close>)
  with filter_upt_single [OF assms(1)] show ?thesis
    by (simp only: nonzero_symbols_def)
qed

lemma single_symbol_tree:
  assumes "nonzero_symbols fq = [i]"
  shows "build_huffman_tree fq =
           Some (Node (fq ! i) False 0 (Some (Node (fq ! i) True (of_nat i) None None)) None)"
  using assms
  by (simp add: build_huffman_tree_def collect_leaves_eq leaf_of_def make_node_def)

text \<open>
  C3, as the specification states it: in every tree the builder produces, every
  internal node holds exactly two children. This is false for the table whose only
  nonzero entry is that of \<open>0x41\<close>: the root has a left child and no right child.
\<close>

theorem two_children_counterexample:
  "build_huffman_tree ((replicate 256 0)[0x41 := 1]) =
     Some (Node 1 False 0 (Some (Node 1 True 0x41 None None)) None) \<and>
   \<not> full_tree (Node 1 False 0 (Some (Node 1 True 0x41 None None)) None)"
  by (simp add: build_huffman_tree_def single_symbol_table make_node_def)

text \<open>
  C3, amended: when the table has exactly one nonzero entry, that of the symbol \<open>i\<close>,
  the tree is a root that is not a leaf and holds no symbol, whose only child, the
  left one, is the leaf of \<open>i\<close> (symbol \<open>i\<close>, below 256, no children), root and leaf
  carrying the frequency of \<open>i\<close>; for every other table that builds a tree, every node
  that is not a leaf holds exactly two children and no symbol (its symbol field is
  0), and every leaf holds a symbol value 0 to 255 and no child.
\<close>

theorem tree_shape:
  assumes "build_huffman_tree fq = Some root"
  shows "if length (nonzero_symbols fq) = 1
         then (\<exists>i. nonzero_symbols fq = [i] \<and> i < 256 \<and> 0 < fq ! i \<and>
                   root = Node (fq ! i) False 0
                            (Some (Node (fq ! i) True (of_nat i) None None)) None)
              \<and> single_root root
         else full_tree root"
proof -
  let ?ls = "map (leaf_of fq) (nonzero_symbols fq)"
  let ?pq = "foldl list_insert_sorted [] ?ls"
  have leaves: "full_tree t" if "t \<in> set ?pq" for t
    using that by (auto simp: set_foldl_insert full_tree_leaf_of nonzero_symbols_small)
  have len: "length ?pq = length (nonzero_symbols fq)"
    by (simp add: length_foldl_insert)
  show ?thesis
  proof (cases "length (nonzero_symbols fq) = 1")
    case True
    then obtain i where ns: "nonzero_symbols fq = [i]"
      by (cases "nonzero_symbols fq") auto
    then have mem: "i \<in> set (nonzero_symbols fq)" by simp
    then have small: "i < 256" by (rule nonzero_symbols_small)
    from mem have pos: "0 < fq ! i" by (simp add: nonzero_symbols_def)
    from single_symbol_tree [OF ns] assms
    have root: "root = Node (fq ! i) False 0
                         (Some (Node (fq ! i) True (of_nat i) None None)) None"
      by simp
    then have "single_root root"
      using small by (simp add: symbol_small)
    with ns small pos root True show ?thesis by auto
  next
    case False
    with assms have "nonzero_symbols fq \<noteq> []"
      and root: "fst (list_pop_front (merge_loop ?pq)) = Some root"
      by (auto simp: build_huffman_tree_def collect_leaves_eq split: if_splits)
    with len have "?pq \<noteq> []" by auto
    then obtain r where r: "merge_loop ?pq = [r]"
      using merge_loop_single by blast
    with root have "r = root" by simp
    moreover have "full_tree r"
      using merge_loop_full [of ?pq r] leaves r by simp
    ultimately show ?thesis using False by simp
  qed
qed

theorem tree_shape_witness:
  "full_tree (Node 5 False 0
      (Some (Node 2 False 0 (Some (Node 1 True 0x42 None None))
                            (Some (Node 1 True 0x43 None None))))
      (Some (Node 3 True 0x41 None None))) \<and>
   nonzero_symbols ((replicate 256 0)[0x41 := 1]) = [0x41] \<and>
   build_huffman_tree ((replicate 256 0)[0x41 := 1]) =
     Some (Node 1 False 0 (Some (Node 1 True 0x41 None None)) None) \<and>
   single_root (Node 1 False 0 (Some (Node 1 True 0x41 None None)) None)"
proof -
  have three: "length (nonzero_symbols ((replicate 256 0)[0x41 := 3, 0x42 := 1, 0x43 := 1])) = 3"
    using aaabc_leaves by (simp add: collect_leaves_eq)
  have one: "nonzero_symbols ((replicate 256 0)[0x41 := 1 :: 32 word]) = [0x41]"
    using nonzero_symbols_single [of "0x41" "1 :: 32 word"] by simp
  have built: "build_huffman_tree ((replicate 256 0)[0x41 := 1]) =
     Some (Node 1 False 0 (Some (Node 1 True 0x41 None None)) None)"
    by (simp add: build_huffman_tree_def single_symbol_table make_node_def)
  from tree_shape [OF aaabc_tree] three
  have "full_tree (Node 5 False 0
      (Some (Node 2 False 0 (Some (Node 1 True 0x42 None None))
                            (Some (Node 1 True 0x43 None None))))
      (Some (Node 3 True 0x41 None None)))"
    by simp
  moreover from tree_shape [OF built] one
  have "single_root (Node 1 False 0 (Some (Node 1 True 0x41 None None)) None)"
    by simp
  ultimately show ?thesis
    using one built by simp
qed

section \<open>Running out of payload\<close>

text \<open>
  \<open>run_steps root original_size k s\<close> is the decoder state after \<open>k\<close> further passes
  through the loop of \<open>decompress_file\<close>, if the loop has not stopped before.
\<close>

fun run_steps :: "Node \<Rightarrow> 64 word \<Rightarrow> nat \<Rightarrow> Decoder \<Rightarrow> Decoder option" where
  "run_steps root original_size 0 s = Some s"
| "run_steps root original_size (Suc k) s =
     (case decode_step root original_size s of
        Continue s' \<Rightarrow> run_steps root original_size k s'
      | Stop e s' \<Rightarrow> None)"

lemma run_steps_decode_loop:
  "run_steps root sz k s = Some s' \<Longrightarrow> decode_loop root sz s = decode_loop root sz s'"
proof (induction k arbitrary: s)
  case 0
  then show ?case by simp
next
  case (Suc k)
  then obtain s1 where step: "decode_step root sz s = Continue s1"
    and rest: "run_steps root sz k s1 = Some s'"
    by (auto split: step.splits)
  have "decode_loop root sz s = decode_loop root sz s1"
    by (subst decode_loop.simps) (simp add: step)
  with Suc.IH [OF rest] show ?case by simp
qed

lemma decode_step_written:
  assumes "decode_step root sz s = Continue s'" and "length (d_out s) = unat (d_written s)"
  shows "length (d_out s') = unat (d_written s')"
proof (cases "is_leaf (d_cur s)")
  case True
  with assms(1) have lt: "d_written s < sz"
    and s': "s' = s\<lparr>d_written := d_written s + 1, d_cur := root,
                     d_out := d_out s @ [ucast (symbol (d_cur s))]\<rparr>"
    by (auto simp: decode_step_def split: if_splits)
  from lt have "unat (d_written s + 1) = Suc (unat (d_written s))"
    by unat_arith
  with s' assms(2) show ?thesis by simp
next
  case False
  with assms show ?thesis
    by (auto simp: decode_step_def split: if_splits option.splits)
qed

lemma run_steps_written:
  "run_steps root sz k s = Some s' \<Longrightarrow> length (d_out s) = unat (d_written s) \<Longrightarrow>
     length (d_out s') = unat (d_written s')"
proof (induction k arbitrary: s)
  case 0
  then show ?case by simp
next
  case (Suc k)
  then obtain s1 where step: "decode_step root sz s = Continue s1"
    and rest: "run_steps root sz k s1 = Some s'"
    by (auto split: step.splits)
  from decode_step_written [OF step Suc.prems(2)] Suc.IH [OF rest] show ?case by simp
qed

lemma decode_loop_exhausted:
  assumes "d_written s < sz" and "\<not> is_leaf (d_cur s)" and "br_read_bit (d_br s) = None"
  shows "decode_loop root sz s = (Some Unexpected_end, s)"
  using assms by (subst decode_loop.simps) (simp add: decode_step_def)

lemma br_read_bit_None: "br_read_bit br = None \<longleftrightarrow> br_bits_left br = 0 \<and> br_f br = []"
  by (auto simp: br_read_bit_def split: list.splits)

text \<open>
  C7: take a container with a complete header, the magic, a declared original size
  greater than 0 and a table that builds a tree. If after some number \<open>k\<close> of passes
  the loop stands at a node that is not a leaf, with fewer bytes written than the
  declared size, and the bit reader has neither a buffered bit nor a byte left to read
  (\<open>br_read_bit\<close> fails), then \<open>decompress_file\<close> dies with "unexpected end of encoded
  data", and the output file holds exactly the bytes written up to that pass, as many
  as the counter \<open>written\<close> says: nothing is rolled back.
\<close>

theorem exhausted_reader_is_fatal:
  assumes "1036 \<le> length inp" and "take 4 inp = MAGIC" and "header_size inp > 0"
    and "build_huffman_tree (header_freq inp) = Some root"
    and "run_steps root (header_size inp) k
           \<lparr>d_written = 0, d_cur = root, d_br = br_init (drop 1036 inp), d_out = []\<rparr> = Some s"
    and "d_written s < header_size inp" and "\<not> is_leaf (d_cur s)"
    and "br_read_bit (d_br s) = None"
  shows "decompress_file inp = (Some Unexpected_end, d_out s, []) \<and>
         length (d_out s) = unat (d_written s)"
proof -
  let ?s0 = "\<lparr>d_written = 0, d_cur = root, d_br = br_init (drop 1036 inp), d_out = []\<rparr>"
  have "decode_loop root (header_size inp) ?s0 = decode_loop root (header_size inp) s"
    using assms(5) by (rule run_steps_decode_loop)
  also have "\<dots> = (Some Unexpected_end, s)"
    using assms(6-8) by (rule decode_loop_exhausted)
  finally have "decompress_file inp = (Some Unexpected_end, d_out s, br_f (d_br s))"
    using assms(3,4) by (simp add: decompress_file_ok [OF assms(1,2)] decode_body_def)
  moreover have "br_f (d_br s) = []"
    using assms(8) by (simp add: br_read_bit_None)
  moreover have "length (d_out s) = unat (d_written s)"
    using run_steps_written [OF assms(5)] by simp
  ultimately show ?thesis by simp
qed

text \<open>
  The container of \<open>AAABC\<close> with the declared size raised to 6: after the five symbols
  the decoder reads the padding bit and runs out of payload inside the tree.
\<close>

lemma truncated_run:
  "run_steps (Node 5 False 0
            (Some (Node 2 False 0 (Some (Node 1 True 0x42 None None))
                                  (Some (Node 1 True 0x43 None None))))
            (Some (Node 3 True 0x41 None None))) 6 13
     \<lparr>d_written = 0, d_cur = Node 5 False 0
            (Some (Node 2 False 0 (Some (Node 1 True 0x42 None None))
                                  (Some (Node 1 True 0x43 None None))))
            (Some (Node 3 True 0x41 None None)), d_br = br_init [0xE2], d_out = []\<rparr> =
   Some \<lparr>d_written = 5, d_cur = Node 2 False 0 (Some (Node 1 True 0x42 None None))
                                  (Some (Node 1 True 0x43 None None)),
         d_br = \<lparr>br_f = [], br_buf = 0, br_bits_left = 0\<rparr>,
         d_out = [0x41, 0x41, 0x41, 0x42, 0x43]\<rparr>"
  by code_simp

theorem exhausted_reader_is_fatal_witness:
  "decompress_file (write_header [] 6 ((replicate 256 0)[0x41 := 3, 0x42 := 1, 0x43 := 1]) @ [0xE2]) =
     (Some Unexpected_end, [0x41, 0x41, 0x41, 0x42, 0x43], [])"
proof -
  let ?fq = "(replicate 256 0)[0x41 := 3, 0x42 := 1, 0x43 := 1] :: 32 word list"
  let ?inp = "write_header [] 6 ?fq @ [0xE2]"
  have fq: "map (\<lambda>i. ?fq ! i) [0..<256] = ?fq"
    using map_nth [of ?fq] by simp
  have 1: "1036 \<le> length ?inp" by (simp add: length_write_header)
  have 2: "take 4 ?inp = MAGIC" by (rule header_parts)
  have 3: "header_size ?inp > 0" by (simp only: header_parts) simp
  have 4: "build_huffman_tree (header_freq ?inp) = Some (Node 5 False 0
            (Some (Node 2 False 0 (Some (Node 1 True 0x42 None None))
                                  (Some (Node 1 True 0x43 None None))))
            (Some (Node 3 True 0x41 None None)))"
    by (simp only: header_parts fq aaabc_tree)
  show ?thesis
    using exhausted_reader_is_fatal [OF 1 2 3 4, of 13
       "\<lparr>d_written = 5, d_cur = Node 2 False 0 (Some (Node 1 True 0x42 None None))
                                  (Some (Node 1 True 0x43 None None)),
         d_br = \<lparr>br_f = [], br_buf = 0, br_bits_left = 0\<rparr>,
         d_out = [0x41, 0x41, 0x41, 0x42, 0x43]\<rparr>"]
    by (simp only: header_parts truncated_run) (simp add: br_read_bit_def)
qed

section \<open>Counters that wrap\<close>

text \<open>
  The counters of the frequency table are \<open>uint32_t\<close> and wrap at \<open>2^32\<close>, while
  \<open>original_size\<close> is \<open>uint64_t\<close>. Counting \<open>n\<close> copies of one byte adds \<open>n\<close> modulo
  \<open>2^32\<close> to its entry.
\<close>

lemma count_replicate:
  "unat b < length fq \<Longrightarrow>
   fold count_step (replicate n b) (fq, sz) =
     (fq[unat b := fq ! unat b + of_nat n], sz + of_nat n)"
proof (induction n arbitrary: fq sz)
  case 0
  then show ?case by simp
next
  case (Suc n)
  let ?fq = "fq[unat b := fq ! unat b + 1]"
  have "fold count_step (replicate (Suc n) b) (fq, sz) =
        fold count_step (replicate n b) (?fq, sz + 1)"
    by (simp add: count_step_def)
  also have "\<dots> = (?fq[unat b := ?fq ! unat b + of_nat n], sz + 1 + of_nat n)"
    using Suc.prems by (intro Suc.IH) simp
  finally show ?case
    using Suc.prems by (simp add: add.assoc)
qed

lemma wrap32: "(4294967296 :: 32 word) = 0"
  by code_simp

lemma replicate_update_same: "(replicate n x)[i := x] = replicate n x"
  by (cases "i < n") (simp_all add: list_eq_iff_nth_eq nth_list_update)

lemma count_wrapped:
  "count_frequencies (replicate 4294967296 0x41) = (replicate 256 0, 4294967296)"
  by (simp add: count_frequencies_def count_replicate wrap32 replicate_update_same del: fold_replicate)

lemma count_wrapped_then_one:
  "count_frequencies (replicate 4294967296 0x41 @ [0x42]) =
     ((replicate 256 0)[0x42 := 1], 4294967297)"
  by (simp add: count_frequencies_def count_replicate count_step_def wrap32 replicate_update_same
        del: fold_replicate)

lemma no_tree: "build_huffman_tree (replicate 256 0) = None"
  by (simp add: build_huffman_tree_def collect_leaves_eq nonzero_symbols_def)

lemma no_codes: "build_code_table None = replicate 256 \<lparr>code = 0, len = 0\<rparr>"
  by (simp add: build_code_table_def)

lemma one_leaf: "collect_leaves ((replicate 256 0)[0x42 := 1]) = ([Node 1 True 0x42 None None], 1)"
  by code_simp

lemma one_tree: "build_huffman_tree ((replicate 256 0)[0x42 := 1]) =
     Some (Node 1 False 0 (Some (Node 1 True 0x42 None None)) None)"
  by (simp add: build_huffman_tree_def one_leaf make_node_def)

lemma one_code: "build_code_table (Some (Node 1 False 0 (Some (Node 1 True 0x42 None None)) None)) =
    (replicate 256 \<lparr>code = 0, len = 0\<rparr>)[0x42 := \<lparr>code = 0, len = 1\<rparr>]"
  by (simp add: build_code_table_def)

lemma replicate_pos: "0 < n \<Longrightarrow> replicate n x = x # replicate (n - 1) x"
  by (cases n) simp_all

text \<open>
  C5 at \<open>N = 2^32\<close>: the input of 4294967296 copies of \<open>0x41\<close>. The counter of \<open>0x41\<close>
  wraps to 0, so the table is all zero, no tree is built and no symbol has a code;
  \<open>original_size\<close> is \<open>2^32 > 0\<close>, so the encoding pass runs and dies at the first byte
  with "Internal error: missing code", the output file holding the header alone.
  Decompressing that file dies with "missing Huffman tree" and writes nothing.
\<close>

theorem single_byte_4GiB_fails:
  "compress_file (replicate 4294967296 0x41) =
     (Some Missing_code, write_header [] 4294967296 (replicate 256 0)) \<and>
   decompress_file (write_header [] 4294967296 (replicate 256 0)) = (Some Missing_tree, [], [])"
proof -
  have "compress_payload (replicate 4294967296 0x41) = (Some Missing_code, [])"
    by (simp only: compress_payload_def count_wrapped prod.case no_tree no_codes Let_def)
       (simp add: replicate_pos [of 4294967296] bw_init_def)
  then have "compress_file (replicate 4294967296 0x41) =
     (Some Missing_code, write_header [] 4294967296 (replicate 256 0))"
    by (simp add: compress_file_payload count_wrapped)
  moreover have "decompress_file (write_header [] 4294967296 (replicate 256 0) @ []) =
      (Some Missing_tree, [], [])"
    by (simp only: decompress_file_container length_replicate decode_body_def no_tree) simp
  ultimately show ?thesis by simp
qed

text \<open>
  C1 at the input of 4294967296 copies of \<open>0x41\<close> followed by one \<open>0x42\<close>: the table
  holds 0 for \<open>0x41\<close> and 1 for \<open>0x42\<close>, the tree is the one-symbol tree of \<open>0x42\<close>,
  and the encoding pass dies at the first byte, which has no code. The output file
  holds the header alone; decompressing it dies with "unexpected end of encoded data"
  and writes nothing, so the input does not come back.
\<close>

theorem wrapped_count_breaks_roundtrip:
  "compress_file (replicate 4294967296 0x41 @ [0x42]) =
     (Some Missing_code, write_header [] 4294967297 ((replicate 256 0)[0x42 := 1])) \<and>
   decompress_file (write_header [] 4294967297 ((replicate 256 0)[0x42 := 1])) =
     (Some Unexpected_end, [], [])"
proof -
  have "compress_payload (replicate 4294967296 0x41 @ [0x42]) = (Some Missing_code, [])"
    by (simp only: compress_payload_def count_wrapped_then_one prod.case one_tree one_code Let_def)
       (simp add: replicate_pos [of 4294967296] bw_init_def)
  then have "compress_file (replicate 4294967296 0x41 @ [0x42]) =
     (Some Missing_code, write_header [] 4294967297 ((replicate 256 0)[0x42 := 1]))"
    by (simp add: compress_file_payload count_wrapped_then_one)
  moreover have "decompress_file (write_header [] 4294967297 ((replicate 256 0)[0x42 := 1]) @ []) =
      (Some Unexpected_end, [], [])"
    by (simp only: decompress_file_container length_replicate length_list_update decode_body_def one_tree)
       (simp add: decode_loop.simps decode_step_def br_init_def br_read_bit_def)
  ultimately show ?thesis by simp
qed

text \<open>
  C9 at the same input: the entries of the table sum to 1, which is not zero and is
  not the original size 4294967297 written in the header.
\<close>

theorem wrapped_count_sum:
  "count_frequencies (replicate 4294967296 0x41 @ [0x42]) =
     ((replicate 256 0)[0x42 := 1], 4294967297) \<and>
   sum_list (map unat ((replicate 256 0)[0x42 := 1 :: 32 word])) = 1 \<and>
   unat (4294967297 :: 64 word) = 4294967297"
proof -
  have "sum_list (map unat ((replicate 256 0)[0x42 := 1 :: 32 word])) = 1"
    by code_simp
  then show ?thesis
    by (simp add: count_wrapped_then_one)
qed

section \<open>Codes longer than the code word\<close>

text \<open>
  \<open>code_bits c\<close> are the bits \<open>bw_write_bits\<close> writes for the table entry \<open>c\<close>, first
  bit first. \<open>paths n\<close> lists every leaf below \<open>n\<close> by its symbol and its path from
  \<open>n\<close>, \<open>False\<close> for a step to the left child and \<open>True\<close> for a step to the right.
\<close>

definition code_bits :: "Code \<Rightarrow> bool list" where
  "code_bits c = map (\<lambda>i. (drop_bit i (code c) AND 1) \<noteq> 0) (rev [0..<unat (len c)])"

fun paths :: "Node \<Rightarrow> (16 word \<times> bool list) list" where
  "paths (Node fr lf sy l r) =
     (if lf then [(sy, [])]
      else (case l of None \<Rightarrow> [] | Some a \<Rightarrow> map (\<lambda>(s, p). (s, False # p)) (paths a))
         @ (case r of None \<Rightarrow> [] | Some b \<Rightarrow> map (\<lambda>(s, p). (s, True # p)) (paths b)))"

text \<open>
  The table of a file in which the byte values 0 to 33 occur 1, 1, 2, 3, 5, ...,
  5702887 times (the Fibonacci numbers; 14930351 bytes in all) and no other value
  occurs.
\<close>

definition fib_table :: "32 word list" where
  "fib_table = [1, 1, 2, 3, 5, 8, 13, 21, 34, 55, 89, 144, 233, 377, 610, 987, 1597, 2584,
     4181, 6765, 10946, 17711, 28657, 46368, 75025, 121393, 196418, 317811, 514229,
     832040, 1346269, 2178309, 3524578, 5702887] @ replicate 222 0"

text \<open>
  C4 at \<open>fib_table\<close>: the leaf of symbol 0 lies 33 steps below the root, at the path of
  32 steps right and one step left. \<open>build_codes_dfs\<close> keeps the path in 32 bits, so the
  first step is shifted out: the entry of symbol 0 is the pattern \<open>0xFFFFFFFE\<close> with
  length 33 (the pattern that symbol 2 has with length 32), whose 33 bits start with
  a 0 and are not the path. The code of symbol 33 is the single bit 0, a prefix of
  them.
\<close>

theorem deep_tree_codes:
  "(case build_huffman_tree fib_table of
      None \<Rightarrow> False
    | Some root \<Rightarrow>
        (let table = build_code_table (Some root)
         in (0, replicate 32 True @ [False]) \<in> set (paths root) \<and>
            table ! 0 = \<lparr>code = 0xFFFFFFFE, len = 33\<rparr> \<and>
            table ! 2 = \<lparr>code = 0xFFFFFFFE, len = 32\<rparr> \<and>
            code_bits (table ! 0) = False # replicate 31 True @ [False] \<and>
            table ! 33 = \<lparr>code = 0, len = 1\<rparr> \<and>
            code_bits (table ! 33) = [False] \<and>
            prefix (code_bits (table ! 33)) (code_bits (table ! 0))))"
  by code_simp

section \<open>Within the limits of the counters and the code word\<close>

text \<open>
  The failures above need a byte value that occurs \<open>2^32\<close> times or a leaf more than 32
  steps below the root. For every other input the program does what the
  specification says: this section proves the round trip, the correspondence of codes
  and paths and the sum of the counters under these two limits.
\<close>

subsection \<open>Bits written\<close>

text \<open>
  \<open>written_bits\<close> reads a writer as the sequence of bits it has taken: the bits of the
  bytes in the file, most significant first, then the bits waiting in the buffer.
\<close>

definition byte_bits :: "byte \<Rightarrow> bool list" where
  "byte_bits b = map (bit b) (rev [0..<8])"

definition pending_bits :: "BitWriter \<Rightarrow> bool list" where
  "pending_bits bw = map (bit (bw_buf bw)) (rev [0..<bw_bits_filled bw])"

definition written_bits :: "BitWriter \<Rightarrow> bool list" where
  "written_bits bw = concat (map byte_bits (bw_f bw)) @ pending_bits bw"

lemma length_byte_bits: "length (byte_bits b) = 8"
  by (simp add: byte_bits_def)

lemma bit_shift_in:
  fixes buf :: byte
  assumes "k < 8"
  shows "map (bit (push_bit 1 buf OR (if b then 1 else 0))) (rev [0..<Suc k]) =
         map (bit buf) (rev [0..<k]) @ [b]"
proof -
  let ?w = "push_bit 1 buf OR (if b then 1 else 0)"
  have zero: "bit ?w 0 = b"
    by (cases b) (simp_all only: bit_or_iff bit_push_bit_iff bit_1_iff if_True if_False, simp_all)
  have up: "bit ?w (Suc i) = bit buf i" if "i < k" for i
    using that assms
    by (cases b) (simp_all only: bit_or_iff bit_push_bit_iff bit_1_iff if_True if_False, simp_all)
  have "[0..<Suc k] = 0 # map Suc [0..<k]"
    by (simp add: upt_conv_Cons map_Suc_upt del: upt_Suc)
  then have "map (bit ?w) (rev [0..<Suc k]) = map (bit ?w) (rev (map Suc [0..<k])) @ [bit ?w 0]"
    by (simp del: upt_Suc)
  also have "map (bit ?w) (rev (map Suc [0..<k])) = map (bit buf) (rev [0..<k])"
    using up by (simp add: rev_map comp_def)
  finally show ?thesis by (simp only: zero)
qed

lemma bw_write_bit_bits:
  assumes "bw_bits_filled bw < 8"
  shows "written_bits (bw_write_bit bw b) = written_bits bw @ [b]"
    and "bw_bits_filled (bw_write_bit bw b) < 8"
proof -
  show "bw_bits_filled (bw_write_bit bw b) < 8"
    using assms by (simp add: bw_write_bit_def Let_def)
  show "written_bits (bw_write_bit bw b) = written_bits bw @ [b]"
  proof (cases "bw_bits_filled bw + 1 = 8")
    case True
    then have k: "bw_bits_filled bw = 7" by simp
    have "byte_bits (push_bit 1 (bw_buf bw) OR (if b then 1 else 0)) =
          map (bit (bw_buf bw)) (rev [0..<7]) @ [b]"
      using bit_shift_in [where k = 7 and b = b and buf = "bw_buf bw"] by (simp add: byte_bits_def eval_nat_numeral)
    then show ?thesis
      using True by (simp add: bw_write_bit_def Let_def written_bits_def pending_bits_def k)
  next
    case False
    then show ?thesis
      using assms bit_shift_in [where k = "bw_bits_filled bw" and b = b and buf = "bw_buf bw"]
      by (simp add: bw_write_bit_def Let_def written_bits_def pending_bits_def del: upt_Suc)
  qed
qed

definition pattern_bits :: "32 word \<Rightarrow> nat \<Rightarrow> bool list" where
  "pattern_bits c n = map (\<lambda>i. (drop_bit i c AND 1) \<noteq> 0) (rev [0..<n])"

lemma fold_write_bits:
  "bw_bits_filled bw < 8 \<Longrightarrow>
   written_bits (fold (\<lambda>i w. bw_write_bit w (f i)) is bw) = written_bits bw @ map f is \<and>
   bw_bits_filled (fold (\<lambda>i w. bw_write_bit w (f i)) is bw) < 8"
  by (induction "is" arbitrary: bw) (simp_all add: bw_write_bit_bits)

lemma bw_write_bits_bits:
  assumes "bw_bits_filled bw < 8"
  shows "written_bits (bw_write_bits bw c n) = written_bits bw @ pattern_bits c n"
    and "bw_bits_filled (bw_write_bits bw c n) < 8"
  using fold_write_bits [OF assms, of "\<lambda>i. (drop_bit i c AND 1) \<noteq> 0" "rev [0..<n]"]
  by (simp_all add: bw_write_bits_def pattern_bits_def)

lemma bw_flush_bits:
  assumes "bw_bits_filled bw < 8"
  shows "\<exists>pad. concat (map byte_bits (bw_f (bw_flush bw))) = written_bits bw @ replicate pad False"
proof (cases "bw_bits_filled bw > 0")
  case False
  then have "concat (map byte_bits (bw_f (bw_flush bw))) = written_bits bw @ replicate 0 False"
    by (simp add: bw_flush_def written_bits_def pending_bits_def)
  then show ?thesis ..
next
  case True
  let ?k = "bw_bits_filled bw"
  let ?w = "push_bit (8 - ?k) (bw_buf bw)"
  have "[0..<8] = [0..<8 - ?k] @ [8 - ?k..<8]"
    using upt_add_eq_append [of 0 "8 - ?k" ?k] assms by simp
  then have split: "rev [0..<8] = rev [8 - ?k..<8] @ rev [0..<8 - ?k]"
    by (simp only: rev_append)
  have "map (bit ?w) (rev [0..<8 - ?k]) = map (\<lambda>_. False) (rev [0..<8 - ?k])"
    by (rule map_cong) (auto simp: bit_push_bit_iff)
  then have low: "map (bit ?w) (rev [0..<8 - ?k]) = replicate (8 - ?k) False"
    by (simp add: map_replicate_const)
  have "[8 - ?k..<8] = map (\<lambda>i. i + (8 - ?k)) [0..<?k]"
    using assms map_add_upt [of "8 - ?k" ?k] by simp
  then have high: "map (bit ?w) (rev [8 - ?k..<8]) = map (bit (bw_buf bw)) (rev [0..<?k])"
    using assms by (auto simp: rev_map bit_simps)
  have "byte_bits ?w = pending_bits bw @ replicate (8 - ?k) False"
    by (simp only: byte_bits_def split map_append low high pending_bits_def)
  then have "concat (map byte_bits (bw_f (bw_flush bw))) =
             written_bits bw @ replicate (8 - ?k) False"
    using True by (simp add: bw_flush_def written_bits_def)
  then show ?thesis ..
qed

subsection \<open>Bits read\<close>

text \<open>
  \<open>remaining_bits\<close> reads a reader as the sequence of bits it will still deliver: the
  unread bits of the buffer, then the bits of the unread bytes.
\<close>

definition remaining_bits :: "BitReader \<Rightarrow> bool list" where
  "remaining_bits br =
     map (bit (br_buf br)) (rev [8 - br_bits_left br..<8]) @ concat (map byte_bits (br_f br))"

lemma shifted_bit: "((drop_bit i w AND 1) \<noteq> 0) = bit w i" for w :: "'a::len word"
  by (simp add: and_one_eq bit_iff_odd_drop_bit even_iff_mod_2_eq_zero)

lemma br_take_bit_bits:
  assumes "0 < br_bits_left br" and "br_bits_left br \<le> 8"
  shows "remaining_bits br = fst (br_take_bit br) # remaining_bits (snd (br_take_bit br))"
    and "br_bits_left (snd (br_take_bit br)) \<le> 8"
proof -
  let ?k = "br_bits_left br"
  let ?buf = "br_buf br"
  show "br_bits_left (snd (br_take_bit br)) \<le> 8"
    using assms by (simp add: br_take_bit_def)
  have "[8 - ?k..<Suc 7] = [8 - ?k..<7] @ [7]"
    by (rule upt_Suc_append) (use assms in simp)
  then have a: "map (bit ?buf) (rev [8 - ?k..<8]) = bit ?buf 7 # map (bit ?buf) (rev [8 - ?k..<7])"
    by simp
  have "map Suc [8 - ?k..<7] = [Suc (8 - ?k)..<Suc 7]"
    by (rule map_Suc_upt)
  moreover have "Suc (8 - ?k) = 8 - (?k - 1)"
    using assms by simp
  ultimately have eq: "[8 - (?k - 1)..<8] = map Suc [8 - ?k..<7]"
    by simp
  have sh: "bit (push_bit 1 ?buf) (Suc x) = bit ?buf x" if "x < 7" for x
    using that by (simp only: bit_push_bit_iff) simp
  have "map (bit (push_bit 1 ?buf)) (rev (map Suc [8 - ?k..<7])) =
        map (bit ?buf) (rev [8 - ?k..<7])"
    unfolding rev_map map_map comp_def by (rule map_cong [OF refl], rule sh, simp)
  then have b: "map (bit (push_bit 1 ?buf)) (rev [8 - (?k - 1)..<8]) =
                map (bit ?buf) (rev [8 - ?k..<7])"
    by (simp only: eq)
  show "remaining_bits br = fst (br_take_bit br) # remaining_bits (snd (br_take_bit br))"
  proof -
    have f: "br_f (snd (br_take_bit br)) = br_f br"
      "br_buf (snd (br_take_bit br)) = push_bit 1 ?buf"
      "br_bits_left (snd (br_take_bit br)) = ?k - 1"
      "fst (br_take_bit br) = bit ?buf 7"
      by (simp_all add: br_take_bit_def shifted_bit)
    show ?thesis
      by (simp only: remaining_bits_def f a b append_Cons)
  qed
qed

lemma br_read_bit_bits:
  assumes "br_bits_left br \<le> 8"
  shows "case remaining_bits br of
           [] \<Rightarrow> br_read_bit br = None
         | b # bs \<Rightarrow> \<exists>br'. br_read_bit br = Some (b, br') \<and> remaining_bits br' = bs \<and>
                        br_bits_left br' \<le> 8"
proof (cases "br_bits_left br = 0")
  case False
  then have "0 < br_bits_left br" by simp
  from br_take_bit_bits [OF this assms] False show ?thesis
    by (simp add: br_read_bit_def prod_eq_iff)
next
  case True
  show ?thesis
  proof (cases "br_f br")
    case Nil
    with True show ?thesis by (simp add: remaining_bits_def br_read_bit_def)
  next
    case (Cons x rest)
    let ?br = "\<lparr>br_f = rest, br_buf = x, br_bits_left = 8\<rparr>"
    have "remaining_bits br = remaining_bits ?br"
      using True Cons by (simp add: remaining_bits_def byte_bits_def)
    moreover have "remaining_bits ?br = fst (br_take_bit ?br) # remaining_bits (snd (br_take_bit ?br))"
      and "br_bits_left (snd (br_take_bit ?br)) \<le> 8"
      by (rule br_take_bit_bits; simp)+
    ultimately show ?thesis
      using True Cons by (simp add: br_read_bit_def prod_eq_iff)
  qed
qed

subsection \<open>Walking the tree\<close>

text \<open>
  When the bits ahead start with the path of a leaf from the current node, the loop
  walks to that leaf, writes its symbol and returns to the root, having read exactly
  the path.
\<close>

lemma paths_Nil: "(sy, []) \<in> set (paths n) \<Longrightarrow> is_leaf n \<and> symbol n = sy"
  by (cases n) (auto split: if_splits option.splits)

lemma paths_Cons:
  "(sy, b # p) \<in> set (paths n) \<Longrightarrow>
     \<not> is_leaf n \<and> (\<exists>c. (if \<not> b then left n else right n) = Some c \<and> (sy, p) \<in> set (paths c))"
  by (cases n) (auto split: if_splits option.splits)

lemma decode_loop_Continue:
  "decode_step root sz s = Continue s' \<Longrightarrow> decode_loop root sz s = decode_loop root sz s'"
  by (subst decode_loop.simps) simp

lemma walk:
  assumes "(sy, p) \<in> set (paths n)"
    and "d_cur s = n" and "remaining_bits (d_br s) = p @ rest"
    and "br_bits_left (d_br s) \<le> 8" and "d_written s < sz"
  shows "\<exists>br'. decode_loop root sz s =
                decode_loop root sz \<lparr>d_written = d_written s + 1, d_cur = root, d_br = br',
                                      d_out = d_out s @ [ucast sy]\<rparr>
              \<and> remaining_bits br' = rest \<and> br_bits_left br' \<le> 8"
  using assms
proof (induction p arbitrary: n s)
  case Nil
  then have leaf: "is_leaf (d_cur s)" "symbol (d_cur s) = sy"
    using paths_Nil by auto
  have "decode_step root sz s =
          Continue \<lparr>d_written = d_written s + 1, d_cur = root, d_br = d_br s,
                    d_out = d_out s @ [ucast sy]\<rparr>"
    using Nil.prems(5) leaf by (simp add: decode_step_def)
  from decode_loop_Continue [OF this] Nil.prems(3,4) show ?case by auto
next
  case (Cons b p)
  from paths_Cons [OF Cons.prems(1)] obtain c where
    inner: "\<not> is_leaf n" and child: "(if \<not> b then left n else right n) = Some c"
    and sub: "(sy, p) \<in> set (paths c)"
    by blast
  from br_read_bit_bits [OF Cons.prems(4)] Cons.prems(3) obtain br1 where
    rd: "br_read_bit (d_br s) = Some (b, br1)" and bits1: "remaining_bits br1 = p @ rest"
    and left1: "br_bits_left br1 \<le> 8"
    by auto
  let ?s1 = "s\<lparr>d_cur := c, d_br := br1\<rparr>"
  have "decode_step root sz s = Continue ?s1"
    using Cons.prems(2,5) inner child rd by (auto simp: decode_step_def split: if_splits)
  then have "decode_loop root sz s = decode_loop root sz ?s1"
    by (rule decode_loop_Continue)
  moreover from Cons.IH [of c ?s1, OF sub] bits1 left1 Cons.prems(5)
  obtain br' where "decode_loop root sz ?s1 =
        decode_loop root sz \<lparr>d_written = d_written s + 1, d_cur = root, d_br = br',
                              d_out = d_out s @ [ucast sy]\<rparr>"
    and "remaining_bits br' = rest" and "br_bits_left br' \<le> 8"
    by auto
  ultimately show ?case by auto
qed

lemma ucast_byte_symbol: "ucast (ucast b :: 16 word) = (b :: byte)"
  by (rule bit_word_eqI) (auto simp: bit_simps)

lemma decode_symbols:
  assumes "\<And>b. b \<in> set bs \<Longrightarrow> (ucast b, cb b) \<in> set (paths root)"
    and "d_cur s = root" and "remaining_bits (d_br s) = concat (map cb bs) @ rest"
    and "br_bits_left (d_br s) \<le> 8"
    and "unat (d_written s) + length bs \<le> unat sz"
  shows "\<exists>br'. decode_loop root sz s =
                decode_loop root sz \<lparr>d_written = d_written s + of_nat (length bs), d_cur = root,
                                      d_br = br', d_out = d_out s @ bs\<rparr>
              \<and> remaining_bits br' = rest \<and> br_bits_left br' \<le> 8"
  using assms
proof (induction bs arbitrary: s)
  case Nil
  have "s = \<lparr>d_written = d_written s, d_cur = root, d_br = d_br s, d_out = d_out s\<rparr>"
    using Nil.prems(2) by simp
  then have "decode_loop root sz s =
      decode_loop root sz \<lparr>d_written = d_written s + of_nat (length ([] :: byte list)),
         d_cur = root, d_br = d_br s, d_out = d_out s @ []\<rparr>"
    by simp
  with Nil.prems(3,4) show ?case by auto
next
  case (Cons b bs)
  have lt: "d_written s < sz"
    using Cons.prems(5) by (simp add: word_less_nat_alt)
  have next_w: "unat (d_written s + 1) = Suc (unat (d_written s))"
    using lt by unat_arith
  have "(ucast b, cb b) \<in> set (paths root)"
    using Cons.prems(1) by simp
  from walk [OF this Cons.prems(2) _ Cons.prems(4) lt, of "concat (map cb bs) @ rest" root]
    Cons.prems(3)
  obtain br1 where
    one: "decode_loop root sz s =
          decode_loop root sz \<lparr>d_written = d_written s + 1, d_cur = root, d_br = br1,
                                d_out = d_out s @ [b]\<rparr>"
    and bits1: "remaining_bits br1 = concat (map cb bs) @ rest"
    and left1: "br_bits_left br1 \<le> 8"
    by (auto simp: ucast_byte_symbol)
  let ?s1 = "\<lparr>d_written = d_written s + 1, d_cur = root, d_br = br1, d_out = d_out s @ [b]\<rparr>"
  have "unat (d_written ?s1) + length bs \<le> unat sz"
    using Cons.prems(5) next_w by simp
  from Cons.IH [of ?s1, OF _ _ _ _ this] Cons.prems(1) bits1 left1
  obtain br' where
    "decode_loop root sz ?s1 =
       decode_loop root sz \<lparr>d_written = d_written s + 1 + of_nat (length bs), d_cur = root,
                             d_br = br', d_out = (d_out s @ [b]) @ bs\<rparr>"
    and "remaining_bits br' = rest" and "br_bits_left br' \<le> 8"
    by auto
  with one show ?case by (auto simp: add.assoc)
qed

lemma decode_loop_done:
  "\<not> d_written s < sz \<Longrightarrow> decode_loop root sz s = (None, s)"
  by (subst decode_loop.simps) (simp add: decode_step_def)

subsection \<open>The code table\<close>

text \<open>
  \<open>build_codes_dfs\<close> stores, for the leaf at path \<open>p\<close> below the node it is called on,
  the pattern \<open>foldl path_step path p\<close> and the length \<open>depth + length p\<close>, and leaves
  every other entry alone. Up to 32 bits the pattern, read by \<open>code_bits\<close>, is the path.
\<close>

definition opaths :: "Node option \<Rightarrow> (16 word \<times> bool list) list" where
  "opaths n = (case n of None \<Rightarrow> [] | Some t \<Rightarrow> paths t)"

lemma opaths_simps:
  "opaths None = []"
  "opaths (Some (Node fr lf sy l r)) =
     (if lf then [(sy, [])]
      else map (\<lambda>(s, p). (s, False # p)) (opaths l) @ map (\<lambda>(s, p). (s, True # p)) (opaths r))"
  by (simp_all add: opaths_def split: option.splits)

definition path_step :: "32 word \<Rightarrow> bool \<Rightarrow> 32 word" where
  "path_step w b = push_bit 1 w OR (if b then 1 else 0)"

definition table_entry :: "32 word \<Rightarrow> 8 word \<Rightarrow> Code" where
  "table_entry w d = \<lparr>code = (if d \<noteq> 0 then w else 0), len = (if d \<noteq> 0 then d else 1)\<rparr>"

lemma length_build_codes_dfs:
  "length (build_codes_dfs n table path depth) = length table"
  by (induction n table path depth rule: build_codes_dfs.induct) simp_all

lemma fst_tagged: "map fst (map (\<lambda>(s, p). (s, b # p)) xs) = map fst xs"
  by (induction xs) auto

lemma syms_internal:
  "map fst (opaths (Some (Node fr False sy l r))) = map fst (opaths l) @ map fst (opaths r)"
  by (simp only: opaths_simps if_False map_append fst_tagged)

lemma build_codes_dfs_other:
  "(\<And>s p. (s, p) \<in> set (opaths n) \<Longrightarrow> unat s \<noteq> i) \<Longrightarrow>
   build_codes_dfs n table path depth ! i = table ! i"
proof (induction n table path depth rule: build_codes_dfs.induct)
  case (1 table path depth)
  show ?case by simp
next
  case (2 fr lf sy l r table path depth)
  show ?case
  proof (cases lf)
    case True
    with "2.prems" [of sy "[]"] show ?thesis by (simp add: opaths_simps)
  next
    case False
    have l: "\<And>s p. (s, p) \<in> set (opaths l) \<Longrightarrow> unat s \<noteq> i"
      using "2.prems" False by (force simp: opaths_simps)
    have r: "\<And>s p. (s, p) \<in> set (opaths r) \<Longrightarrow> unat s \<noteq> i"
      using "2.prems" False by (force simp: opaths_simps)
    show ?thesis
      using False "2.IH"(1) [OF False l] "2.IH"(2) [OF False r] by simp
  qed
qed

lemma build_codes_dfs_entry:
  assumes "(s, p) \<in> set (opaths n)" and "distinct (map fst (opaths n))"
    and "unat s < length table"
  shows "build_codes_dfs n table path depth ! unat s =
           table_entry (foldl path_step path p) (depth + of_nat (length p))"
  using assms
proof (induction n table path depth arbitrary: p rule: build_codes_dfs.induct)
  case (1 table path depth)
  then show ?case by (simp add: opaths_simps)
next
  case (2 fr lf sy l r table path depth)
  show ?case
  proof (cases lf)
    case True
    with "2.prems" show ?thesis by (simp add: opaths_simps table_entry_def)
  next
    case False
    let ?t1 = "build_codes_dfs l table (push_bit 1 path OR 0) (depth + 1)"
    from "2.prems"(2) False have "distinct (map fst (opaths l) @ map fst (opaths r))"
      using syms_internal [of fr sy l r] by simp
    then have dl: "distinct (map fst (opaths l))"
      and dr: "distinct (map fst (opaths r))"
      and disj: "set (map fst (opaths l)) \<inter> set (map fst (opaths r)) = {}"
      by simp_all
    from "2.prems"(1) False consider
      (L) q where "p = False # q" "(s, q) \<in> set (opaths l)" |
      (R) q where "p = True # q" "(s, q) \<in> set (opaths r)"
      by (auto simp: opaths_simps)
    note cases = this
    have e0: "push_bit 1 path OR 0 = path_step path False"
      and e1: "push_bit 1 path OR 1 = path_step path True"
      by (simp_all add: path_step_def)
    have lhs: "build_codes_dfs (Some (Node fr lf sy l r)) table path depth =
               build_codes_dfs r ?t1 (push_bit 1 path OR 1) (depth + 1)"
      using False by simp
    have rhs: "table_entry (foldl path_step path (b # q)) (depth + of_nat (length (b # q))) =
               table_entry (foldl path_step (path_step path b) q) (depth + 1 + of_nat (length q))"
      for b q
      by (simp add: add.assoc)
    from cases show ?thesis
    proof cases
      case L
      have "unat s' \<noteq> unat s" if "(s', p') \<in> set (opaths r)" for s' p'
      proof -
        from that L(2) disj have "s' \<noteq> s" by force
        then show ?thesis by (simp add: word_unat_eq_iff)
      qed
      then have "build_codes_dfs r ?t1 (push_bit 1 path OR 1) (depth + 1) ! unat s = ?t1 ! unat s"
        by (rule build_codes_dfs_other)
      moreover have "?t1 ! unat s =
          table_entry (foldl path_step (push_bit 1 path OR 0) q) (depth + 1 + of_nat (length q))"
        using "2.IH"(1) [OF False L(2) dl "2.prems"(3)] .
      ultimately show ?thesis
        by (simp only: lhs L(1) rhs e0)
    next
      case R
      have "unat s < length ?t1"
        using "2.prems"(3) by (simp add: length_build_codes_dfs)
      from "2.IH"(2) [OF False R(2) dr this] show ?thesis
        by (simp only: lhs R(1) rhs e1)
    qed
  qed
qed

lemma bit_path_step:
  assumes "k < 32"
  shows "map (bit (path_step w b)) (rev [0..<Suc k]) = map (bit w) (rev [0..<k]) @ [b]"
proof -
  let ?w = "path_step w b"
  have zero: "bit ?w 0 = b"
    unfolding path_step_def
    by (cases b) (simp_all only: bit_or_iff bit_push_bit_iff bit_1_iff if_True if_False, simp_all)
  have up: "bit ?w (Suc i) = bit w i" if "i < k" for i
    using that assms unfolding path_step_def
    by (cases b) (simp_all only: bit_or_iff bit_push_bit_iff bit_1_iff if_True if_False, simp_all)
  have "[0..<Suc k] = 0 # map Suc [0..<k]"
    by (simp add: upt_conv_Cons map_Suc_upt del: upt_Suc)
  then have "map (bit ?w) (rev [0..<Suc k]) = map (bit ?w) (rev (map Suc [0..<k])) @ [bit ?w 0]"
    by (simp del: upt_Suc)
  also have "map (bit ?w) (rev (map Suc [0..<k])) = map (bit w) (rev [0..<k])"
    unfolding rev_map map_map comp_def by (rule map_cong [OF refl], rule up, simp)
  finally show ?thesis by (simp only: zero)
qed

lemma bits_of_path:
  "length p \<le> 32 \<Longrightarrow> map (bit (foldl path_step w p)) (rev [0..<length p]) = p"
proof (induction p rule: rev_induct)
  case Nil
  show ?case by simp
next
  case (snoc b p)
  then have "length p < 32" by simp
  from bit_path_step [OF this, of "foldl path_step w p" b] snoc show ?case
    by (simp del: upt_Suc)
qed

lemma code_bits_table_entry:
  assumes "1 \<le> length p" and "length p \<le> 32"
  shows "code_bits (table_entry (foldl path_step 0 p) (0 + of_nat (length p))) = p"
proof -
  have u: "unat (of_nat (length p) :: 8 word) = length p"
    using assms by (simp add: unat_of_nat)
  then have nz: "(of_nat (length p) :: 8 word) \<noteq> 0"
    using assms by (metis not_one_le_zero unat_0)
  show ?thesis
    using bits_of_path [OF assms(2), of 0]
    by (simp add: code_bits_def table_entry_def nz u shifted_bit)
qed

subsection \<open>The symbols of the tree\<close>

text \<open>
  Merging keeps the leaves: the tree that \<open>build_huffman_tree\<close> returns has exactly one
  leaf for each nonzero entry of the table, and its root is not a leaf.
\<close>

definition forest_syms :: "Node list \<Rightarrow> 16 word list" where
  "forest_syms pq = concat (map (\<lambda>t. map fst (paths t)) pq)"

lemma forest_syms_simps:
  "forest_syms [] = []"
  "forest_syms (t # pq) = map fst (paths t) @ forest_syms pq"
  by (simp_all add: forest_syms_def)

lemma mset_forest_insert:
  "mset (forest_syms (list_insert_sorted pq t)) = mset (map fst (paths t)) + mset (forest_syms pq)"
  by (induction pq) (simp_all add: forest_syms_simps)

lemma syms_merged:
  "map fst (paths (make_node fr False sy (Some a) (Some b))) =
     map fst (paths a) @ map fst (paths b)"
  using syms_internal [of fr sy "Some a" "Some b"] by (simp add: opaths_def make_node_def)

lemma syms_single:
  "map fst (paths (make_node fr False sy (Some a) None)) = map fst (paths a)"
  using syms_internal [of fr sy "Some a" None] by (simp add: opaths_def make_node_def)

lemma mset_forest_merge_loop: "mset (forest_syms (merge_loop pq)) = mset (forest_syms pq)"
proof (induction pq rule: merge_loop.induct)
  case (3 a b rest)
  then show ?case
    by (simp add: mset_forest_insert syms_merged forest_syms_simps)
qed simp_all

lemma mset_forest_foldl:
  "mset (forest_syms (foldl list_insert_sorted pq ts)) =
     mset (forest_syms pq) + mset (forest_syms ts)"
  by (induction ts arbitrary: pq) (simp_all add: mset_forest_insert forest_syms_simps)

lemma forest_syms_leaves: "forest_syms (map (leaf_of fq) is) = map of_nat is"
  by (induction "is") (simp_all add: forest_syms_simps leaf_of_def make_node_def)

lemma merge_loop_root:
  "2 \<le> length pq \<Longrightarrow> \<exists>r. merge_loop pq = [r] \<and> \<not> is_leaf r"
proof (induction pq rule: merge_loop.induct)
  case (3 a b rest)
  let ?p = "make_node (freq a + freq b) False 0 (Some a) (Some b)"
  show ?case
  proof (cases rest)
    case Nil
    then show ?thesis by (simp add: make_node_def)
  next
    case (Cons c cs)
    then have "2 \<le> length (list_insert_sorted rest ?p)"
      by (simp add: length_list_insert_sorted)
    with "3.IH" show ?thesis by simp
  qed
qed simp_all

lemma build_tree_syms:
  assumes "build_huffman_tree fq = Some root"
  shows "mset (map fst (paths root)) = mset (map of_nat (nonzero_symbols fq))"
    and "\<not> is_leaf root"
proof -
  let ?ls = "map (leaf_of fq) (nonzero_symbols fq)"
  let ?pq = "foldl list_insert_sorted [] ?ls"
  have len: "length ?pq = length (nonzero_symbols fq)"
    by (simp add: length_foldl_insert)
  have syms: "mset (forest_syms ?pq) = mset (map of_nat (nonzero_symbols fq))"
    by (simp add: mset_forest_foldl forest_syms_leaves forest_syms_simps)
  have "mset (map fst (paths root)) = mset (map of_nat (nonzero_symbols fq)) \<and> \<not> is_leaf root"
  proof (cases "length (nonzero_symbols fq) = 1")
    case True
    with len obtain only where only: "?pq = [only]"
      by (cases ?pq) auto
    then have root: "root = make_node (freq only) False 0 (Some only) None"
      using assms True by (simp add: build_huffman_tree_def collect_leaves_eq)
    have "map fst (paths root) = forest_syms ?pq"
      by (simp only: root syms_single only forest_syms_simps append_Nil2)
    with syms have "mset (map fst (paths root)) = mset (map of_nat (nonzero_symbols fq))"
      by (simp only:)
    moreover have "\<not> is_leaf root"
      by (simp add: root make_node_def)
    ultimately show ?thesis ..
  next
    case False
    with assms have "nonzero_symbols fq \<noteq> []"
      and root: "fst (list_pop_front (merge_loop ?pq)) = Some root"
      by (auto simp: build_huffman_tree_def collect_leaves_eq split: if_splits)
    then have "length (nonzero_symbols fq) \<noteq> 0" by simp
    with False have "2 \<le> length (nonzero_symbols fq)" by linarith
    with len have "2 \<le> length ?pq" by (simp only:)
    from merge_loop_root [OF this] obtain r where r: "merge_loop ?pq = [r]" "\<not> is_leaf r"
      by blast
    with root have "r = root" by simp
    moreover have "mset (forest_syms [r]) = mset (map of_nat (nonzero_symbols fq))"
      using mset_forest_merge_loop [of ?pq] syms r by simp
    ultimately show ?thesis
      using r by (simp add: forest_syms_simps)
  qed
  then show "mset (map fst (paths root)) = mset (map of_nat (nonzero_symbols fq))"
    and "\<not> is_leaf root" by simp_all
qed

lemma distinct_symbols: "distinct (map of_nat (nonzero_symbols fq) :: 16 word list)"
proof -
  have "inj_on (of_nat :: nat \<Rightarrow> 16 word) (set (nonzero_symbols fq))"
  proof (rule inj_onI)
    fix i j assume i: "i \<in> set (nonzero_symbols fq)" and j: "j \<in> set (nonzero_symbols fq)"
      and eq: "(of_nat i :: 16 word) = of_nat j"
    from i have "i < 256" by (rule nonzero_symbols_small)
    then have ui: "unat (of_nat i :: 16 word) = i" by (simp add: unat_of_nat)
    from j have "j < 256" by (rule nonzero_symbols_small)
    then have uj: "unat (of_nat j :: 16 word) = j" by (simp add: unat_of_nat)
    from eq have "unat (of_nat i :: 16 word) = unat (of_nat j :: 16 word)" by (rule arg_cong)
    then show "i = j" by (simp only: ui uj)
  qed
  moreover have "distinct (nonzero_symbols fq)"
    unfolding nonzero_symbols_def by (rule distinct_filter) (rule distinct_upt)
  ultimately show ?thesis by (simp only: distinct_map simp_thms)
qed

lemma build_tree_paths:
  assumes "build_huffman_tree fq = Some root"
  shows "distinct (map fst (paths root))"
    and "i < 256 \<Longrightarrow> fq ! i > 0 \<Longrightarrow> \<exists>p. (of_nat i, p) \<in> set (paths root)"
    and "(s, p) \<in> set (paths root) \<Longrightarrow> 1 \<le> length p \<and> unat s < 256"
proof -
  note m = build_tree_syms(1) [OF assms]
  show "distinct (map fst (paths root))"
    using m distinct_symbols [of fq] by (metis mset_eq_imp_distinct_iff)
  have set_eq: "set (map fst (paths root)) = set (map of_nat (nonzero_symbols fq))"
    using m by (rule mset_eq_setD)
  show "\<exists>p. (of_nat i, p) \<in> set (paths root)" if "i < 256" "fq ! i > 0"
  proof -
    from that have "i \<in> set (nonzero_symbols fq)" by (simp add: nonzero_symbols_def)
    then have "(of_nat i :: 16 word) \<in> set (map fst (paths root))"
      unfolding set_eq by simp
    then show ?thesis by force
  qed
  show "1 \<le> length p \<and> unat s < 256" if "(s, p) \<in> set (paths root)"
  proof -
    from that have "s \<in> set (map fst (paths root))" by force
    then obtain i where i: "i \<in> set (nonzero_symbols fq)" "s = of_nat i"
      unfolding set_eq by auto
    then have "i < 256" by (simp add: nonzero_symbols_small)
    with i have "unat s < 256"
      by (simp add: unat_of_nat)
    moreover have "p \<noteq> []"
      using that paths_Nil [of s root] build_tree_syms(2) [OF assms] by (cases p) auto
    ultimately show ?thesis by (cases p) auto
  qed
qed

subsection \<open>Counting\<close>

text \<open>
  The counting pass leaves in entry \<open>i\<close> the number of occurrences of the byte \<open>i\<close>,
  modulo \<open>2^32\<close>, and in \<open>original_size\<close> the length of the input, modulo \<open>2^64\<close>.
\<close>

lemma byte_index: "i < 256 \<Longrightarrow> (b = (of_nat i :: byte)) = (unat b = i)"
  by (auto simp: unat_of_nat)

lemma unat_byte_less: "unat (b :: byte) < 256"
  using unsigned_less [of b] by simp

lemma count_fold:
  "length fq = 256 \<Longrightarrow>
   fold count_step inp (fq, sz) =
     (map (\<lambda>i. fq ! i + of_nat (count_list inp (of_nat i))) [0..<256], sz + of_nat (length inp))"
proof (induction inp arbitrary: fq sz)
  case Nil
  with map_nth [of fq] show ?case by simp
next
  case (Cons b bs)
  let ?fq = "fq[unat b := fq ! unat b + 1]"
  have "map (\<lambda>i. ?fq ! i + of_nat (count_list bs (of_nat i))) [0..<256] =
        map (\<lambda>i. fq ! i + of_nat (count_list (b # bs) (of_nat i))) [0..<256]"
  proof (rule map_cong [OF refl])
    fix i assume "i \<in> set [0..<256]"
    then have i: "i < 256" by simp
    show "?fq ! i + of_nat (count_list bs (of_nat i)) =
          fq ! i + of_nat (count_list (b # bs) (of_nat i))"
      using i Cons.prems by (auto simp: nth_list_update byte_index)
  qed
  moreover have "fold count_step (b # bs) (fq, sz) = fold count_step bs (?fq, sz + 1)"
    by (simp add: count_step_def)
  ultimately show ?case
    using Cons.IH [of ?fq "sz + 1"] Cons.prems by (simp add: add.assoc)
qed

lemma count_frequencies_eq:
  "count_frequencies inp =
     (map (\<lambda>i. of_nat (count_list inp (of_nat i))) [0..<256], of_nat (length inp))"
  by (simp add: count_frequencies_def count_fold)

lemma count_frequencies_size: "snd (count_frequencies inp) = of_nat (length inp)"
  by (simp only: count_frequencies_eq snd_conv)

lemma count_frequencies_length: "length (fst (count_frequencies inp)) = 256"
  by (simp only: count_frequencies_eq fst_conv length_map length_upt diff_zero)

lemma count_frequencies_nth:
  "fst (count_frequencies inp) ! unat b = of_nat (count_list inp b)"
proof -
  have "unat b < length [0..<256]"
    using unat_byte_less [of b] by (simp only: length_upt diff_zero)
  then have "map (\<lambda>i. of_nat (count_list inp (of_nat i)) :: 32 word) [0..<256] ! unat b =
             of_nat (count_list inp (of_nat ([0..<256] ! unat b)))"
    by (rule nth_map)
  moreover have "[0..<256] ! unat b = unat b"
    using unat_byte_less [of b] by (simp only: nth_upt add_0)
  ultimately show ?thesis
    by (simp only: count_frequencies_eq fst_conv of_nat_unat ucast_id)
qed

lemma sum_indicator: "k < n \<Longrightarrow> sum_list (map (\<lambda>i. if i = k then 1 else 0) [0..<n]) = (1 :: nat)"
  by (simp add: interv_sum_list_conv_sum_set_nat)

lemma sum_counts: "sum_list (map (\<lambda>i. count_list inp (of_nat i :: byte)) [0..<256]) = length inp"
proof (induction inp)
  case Nil
  show ?case by simp
next
  case (Cons b bs)
  have "map (\<lambda>i. count_list (b # bs) (of_nat i :: byte)) [0..<256] =
        map (\<lambda>i. count_list bs (of_nat i :: byte) + (if i = unat b then 1 else 0)) [0..<256]"
    by (rule map_cong [OF refl]) (auto simp: byte_index)
  then have "sum_list (map (\<lambda>i. count_list (b # bs) (of_nat i :: byte)) [0..<256]) =
             sum_list (map (\<lambda>i. count_list bs (of_nat i :: byte)) [0..<256]) +
             sum_list (map (\<lambda>i. if i = unat b then 1 else 0) [0..<256])"
    by (simp only: sum_list_addf)
  with Cons.IH sum_indicator [OF unat_byte_less, of b] show ?case by simp
qed

subsection \<open>The round trip\<close>

text \<open>\<open>depth_of n\<close> is the length of the longest path from \<open>n\<close> to a leaf.\<close>

fun depth_of :: "Node \<Rightarrow> nat" where
  "depth_of (Node fr lf sy l r) =
     (if lf then 0
      else Suc (max (case l of None \<Rightarrow> 0 | Some a \<Rightarrow> depth_of a)
                    (case r of None \<Rightarrow> 0 | Some b \<Rightarrow> depth_of b)))"

lemma path_depth: "(s, p) \<in> set (paths n) \<Longrightarrow> length p \<le> depth_of n"
proof (induction n arbitrary: p rule: paths.induct)
  case (1 fr lf sy l r)
  show ?case
  proof (cases lf)
    case True
    with "1.prems" show ?thesis by simp
  next
    case False
    with "1.prems" consider
      (L) a q where "l = Some a" "p = False # q" "(s, q) \<in> set (paths a)" |
      (R) b q where "r = Some b" "p = True # q" "(s, q) \<in> set (paths b)"
      by (auto split: option.splits)
    then show ?thesis
    proof cases
      case L
      with "1.IH"(1) [OF False L(1) L(3)] False show ?thesis by simp
    next
      case R
      with "1.IH"(2) [OF False R(1) R(3)] False show ?thesis by simp
    qed
  qed
qed

lemma encode_loop_bits:
  assumes "\<And>b. b \<in> set inp \<Longrightarrow> len (table ! unat b) \<noteq> 0" and "bw_bits_filled bw < 8"
  shows "\<exists>bw'. encode_loop table bw inp = Inr bw' \<and>
               written_bits bw' =
                 written_bits bw @ concat (map (\<lambda>b. code_bits (table ! unat b)) inp) \<and>
               bw_bits_filled bw' < 8"
  using assms
proof (induction inp arbitrary: bw)
  case Nil
  then show ?case by simp
next
  case (Cons b bs)
  let ?c = "table ! unat b"
  let ?bw = "bw_write_bits bw (code ?c) (unat (len ?c))"
  have nz: "len ?c \<noteq> 0" using Cons.prems(1) by simp
  have bits: "written_bits ?bw = written_bits bw @ code_bits ?c"
    and filled: "bw_bits_filled ?bw < 8"
    using bw_write_bits_bits [OF Cons.prems(2)]
    by (simp_all add: code_bits_def pattern_bits_def)
  from Cons.IH [of ?bw, OF _ filled] Cons.prems(1)
  obtain bw' where "encode_loop table ?bw bs = Inr bw'"
    and "written_bits bw' = written_bits ?bw @ concat (map (\<lambda>b. code_bits (table ! unat b)) bs)"
    and "bw_bits_filled bw' < 8"
    by auto
  with nz bits show ?case by (simp add: Let_def)
qed

lemma build_some:
  assumes "nonzero_symbols fq \<noteq> []"
  shows "\<exists>root. build_huffman_tree fq = Some root"
proof -
  let ?pq = "foldl list_insert_sorted [] (map (leaf_of fq) (nonzero_symbols fq))"
  have "length ?pq = length (nonzero_symbols fq)"
    by (simp add: length_foldl_insert)
  with assms have "?pq \<noteq> []" by auto
  then obtain x xs where pq: "?pq = x # xs" by (cases ?pq) auto
  from \<open>?pq \<noteq> []\<close> obtain r where "merge_loop ?pq = [r]"
    using merge_loop_single by blast
  with assms pq show ?thesis
    by (simp add: build_huffman_tree_def collect_leaves_eq)
qed

lemma length_bound:
  assumes "\<And>b :: byte. count_list inp b < 2 ^ 32"
  shows "length inp < 2 ^ 64"
proof -
  have "sum_list (map (\<lambda>i. count_list inp (of_nat i :: byte)) [0..<256]) \<le>
        sum_list (map (\<lambda>i. 2 ^ 32) [0..<256])"
    by (rule sum_list_mono) (use assms in \<open>simp add: less_imp_le\<close>)
  also have "\<dots> = 256 * 2 ^ 32"
    by (simp add: map_replicate_const sum_list_replicate)
  finally show ?thesis
    by (simp add: sum_counts)
qed

lemma remaining_bits_init: "remaining_bits (br_init P) = concat (map byte_bits P)"
  by (simp add: remaining_bits_def br_init_def)

lemma written_bits_init: "written_bits (bw_init []) = []"
  by (simp add: written_bits_def pending_bits_def bw_init_def)

lemma codes_are_paths:
  assumes root: "build_huffman_tree fq = Some root"
    and deep: "depth_of root \<le> 32"
    and b: "fq ! unat (b :: byte) > 0"
  shows "(ucast b, code_bits (build_code_table (Some root) ! unat b)) \<in> set (paths root)"
    and "len (build_code_table (Some root) ! unat b) \<noteq> 0"
proof -
  let ?table = "build_code_table (Some root)"
  have "unat (of_nat (unat b) :: 16 word) = unat b"
    using unat_byte_less [of b] by (simp add: unat_of_nat del: of_nat_unat)
  then have u: "unat (ucast b :: 16 word) = unat b"
    by (simp only: of_nat_unat)
  have "(of_nat (unat b) :: 16 word) = ucast b" by simp
  with build_tree_paths(2) [OF root unat_byte_less b]
  obtain p where p: "(ucast b, p) \<in> set (paths root)" by auto
  from build_tree_paths(3) [OF root p] path_depth [OF p] deep
  have p1: "1 \<le> length p" and p32: "length p \<le> 32" by simp_all
  have "?table ! unat (ucast b :: 16 word) =
          table_entry (foldl path_step 0 p) (0 + of_nat (length p))"
    unfolding build_code_table_def Let_def option.case
    by (rule build_codes_dfs_entry)
       (simp_all add: opaths_def p build_tree_paths(1) [OF root] u unat_byte_less)
  then have entry: "?table ! unat b = table_entry (foldl path_step 0 p) (0 + of_nat (length p))"
    by (simp only: u)
  have "code_bits (?table ! unat b) = p"
    unfolding entry by (rule code_bits_table_entry [OF p1 p32])
  with p show "(ucast b, code_bits (?table ! unat b)) \<in> set (paths root)" by simp
  have "unat (of_nat (length p) :: 8 word) = length p"
    using p32 by (simp add: unat_of_nat)
  with p1 have "(of_nat (length p) :: 8 word) \<noteq> 0"
    by (metis not_one_le_zero unat_0)
  then show "len (?table ! unat b) \<noteq> 0"
    by (simp add: entry table_entry_def)
qed

text \<open>
  If no byte value occurs \<open>2^32\<close> times or more in the input and the tree built from
  its table is at most 32 deep, then \<open>compress_file\<close> returns, and \<open>decompress_file\<close>
  on the container it wrote returns with the input as output.
\<close>

theorem roundtrip:
  assumes nowrap: "\<And>b. count_list inp b < 2 ^ 32"
    and shallow: "\<And>root. build_huffman_tree (fst (count_frequencies inp)) = Some root \<Longrightarrow>
                    depth_of root \<le> 32"
  shows "fst (compress_file inp) = None \<and>
         (\<exists>rest. decompress_file (snd (compress_file inp)) = (None, inp, rest))"
proof -
  let ?fq = "fst (count_frequencies inp)"
  let ?sz = "snd (count_frequencies inp)"
  have sz: "?sz = of_nat (length inp)"
    by (rule count_frequencies_size)
  have len: "length ?fq = 256"
    by (rule count_frequencies_length)
  have usz: "unat ?sz = length inp"
    using length_bound [OF nowrap] by (simp add: sz unat_of_nat)
  have cf: "count_frequencies inp = (?fq, ?sz)" by simp
  show ?thesis
  proof (cases "inp = []")
    case True
    then have "compress_payload inp = (None, [])"
      by (simp add: compress_payload_def count_frequencies_def)
    moreover have "decode_body ?sz ?fq [] = (None, [], [])"
      using True by (simp add: decode_body_def count_frequencies_def)
    ultimately show ?thesis
      using True decompress_file_container [OF len, of ?sz "[]"]
      by (simp add: compress_file_payload)
  next
    case False
    then have "0 < length inp" by simp
    with usz have szpos: "?sz \<noteq> 0" by (metis less_numeral_extra(3) unat_0)
    then have szpos': "?sz > 0" by (simp add: word_greater_zero_iff)
    have seen: "?fq ! unat b > 0" if "b \<in> set inp" for b
    proof -
      have "count_list inp b \<noteq> 0" using that by (simp add: count_list_0_iff)
      moreover have "unat (of_nat (count_list inp b) :: 32 word) = count_list inp b"
        using nowrap [of b] by (simp add: unat_of_nat)
      ultimately have "(of_nat (count_list inp b) :: 32 word) \<noteq> 0"
        by (metis unat_0)
      then show ?thesis
        by (simp add: count_frequencies_nth word_greater_zero_iff)
    qed
    from False obtain b0 where "b0 \<in> set inp" by (cases inp) auto
    from seen [OF this] have "unat b0 \<in> set (nonzero_symbols ?fq)"
      using unat_byte_less [of b0] by (simp add: nonzero_symbols_def)
    then have "nonzero_symbols ?fq \<noteq> []" by auto
    from build_some [OF this] obtain root where root: "build_huffman_tree ?fq = Some root" ..
    let ?table = "build_code_table (Some root)"
    let ?cb = "\<lambda>b. code_bits (?table ! unat b)"
    note deep = shallow [OF root]
    have "bw_bits_filled (bw_init []) < 8" by (simp add: bw_init_def)
    from encode_loop_bits [of inp ?table "bw_init []", OF _ this]
      codes_are_paths(2) [OF root deep seen]
    obtain bw' where enc: "encode_loop ?table (bw_init []) inp = Inr bw'"
      and bits: "written_bits bw' = concat (map ?cb inp)"
      and filled: "bw_bits_filled bw' < 8"
      by (auto simp: written_bits_init)
    from bw_flush_bits [OF filled] bits obtain pad where
      payload: "concat (map byte_bits (bw_f (bw_flush bw'))) =
                concat (map ?cb inp) @ replicate pad False"
      by auto
    let ?P = "bw_f (bw_flush bw')"
    have comp: "compress_payload inp = (None, ?P)"
      using szpos' by (simp add: compress_payload_def split_beta root enc Let_def)
    let ?s0 = "\<lparr>d_written = 0, d_cur = root, d_br = br_init ?P, d_out = []\<rparr>"
    have c0: "d_cur ?s0 = root" by simp
    have r0: "remaining_bits (d_br ?s0) = concat (map ?cb inp) @ replicate pad False"
      by (simp add: remaining_bits_init payload)
    have l0: "br_bits_left (d_br ?s0) \<le> 8" by (simp add: br_init_def)
    have w0: "unat (d_written ?s0) + length inp \<le> unat ?sz" by (simp add: usz)
    from decode_symbols [of inp ?cb root ?s0 "replicate pad False" ?sz,
        OF codes_are_paths(1) [OF root deep seen] c0 r0 l0 w0]
    obtain br' where
      run: "decode_loop root ?sz ?s0 =
            decode_loop root ?sz \<lparr>d_written = 0 + of_nat (length inp), d_cur = root,
                                    d_br = br', d_out = [] @ inp\<rparr>"
      by auto
    have "decode_loop root ?sz \<lparr>d_written = 0 + of_nat (length inp), d_cur = root,
                                    d_br = br', d_out = [] @ inp\<rparr> =
          (None, \<lparr>d_written = 0 + of_nat (length inp), d_cur = root,
                                    d_br = br', d_out = [] @ inp\<rparr>)"
      by (rule decode_loop_done) (simp add: sz)
    with run have "decode_body ?sz ?fq ?P = (None, inp, br_f br')"
      using szpos by (simp add: decode_body_def root)
    then show ?thesis
      using decompress_file_container [OF len, of ?sz ?P]
      by (simp add: compress_file_payload comp)
  qed
qed

subsection \<open>Codes and counters within the limits\<close>

lemma paths_prefix:
  "(s, p) \<in> set (paths n) \<Longrightarrow> (s', p') \<in> set (paths n) \<Longrightarrow> prefix p p' \<Longrightarrow>
     s = s' \<and> p = p'"
proof (induction n arbitrary: p p' rule: paths.induct)
  case (1 fr lf sy l r)
  show ?case
  proof (cases lf)
    case True
    with "1.prems" show ?thesis by simp
  next
    case False
    from "1.prems"(1) False consider
      (L) a q where "l = Some a" "p = False # q" "(s, q) \<in> set (paths a)" |
      (R) b q where "r = Some b" "p = True # q" "(s, q) \<in> set (paths b)"
      by (auto split: option.splits)
    then show ?thesis
    proof cases
      case L
      with "1.prems"(3) obtain q' where p': "p' = False # q'" and pq: "prefix q q'"
        by (cases p') auto
      with "1.prems"(2) False L(1) have "(s', q') \<in> set (paths a)"
        by (auto split: option.splits)
      from "1.IH"(1) [OF False L(1) L(3) this pq] L(2) p' show ?thesis by simp
    next
      case R
      with "1.prems"(3) obtain q' where p': "p' = True # q'" and pq: "prefix q q'"
        by (cases p') auto
      with "1.prems"(2) False R(1) have "(s', q') \<in> set (paths b)"
        by (auto split: option.splits)
      from "1.IH"(2) [OF False R(1) R(3) this pq] R(2) p' show ?thesis by simp
    qed
  qed
qed

lemma unassigned_entry:
  assumes root: "build_huffman_tree fq = Some root" and i: "i < 256" and z: "\<not> fq ! i > 0"
  shows "build_code_table (Some root) ! i = \<lparr>code = 0, len = 0\<rparr>"
proof -
  have "unat s \<noteq> i" if "(s, p) \<in> set (opaths (Some root))" for s p
  proof
    assume eq: "unat s = i"
    from that have "s \<in> set (map fst (paths root))" by (force simp: opaths_def)
    then have "s \<in> set (map of_nat (nonzero_symbols fq))"
      using mset_eq_setD [OF build_tree_syms(1) [OF root]] by simp
    then obtain j where j: "j \<in> set (nonzero_symbols fq)" "s = of_nat j" by auto
    then have "j < 256" by (simp add: nonzero_symbols_small)
    with j eq have "j = i" by (simp add: unat_of_nat)
    with j z show False by (simp add: nonzero_symbols_def)
  qed
  then have "build_codes_dfs (Some root) (replicate 256 \<lparr>code = 0, len = 0\<rparr>) 0 0 ! i =
             replicate 256 \<lparr>code = 0, len = 0\<rparr> ! i"
    by (rule build_codes_dfs_other)
  with i show ?thesis by (simp add: build_code_table_def)
qed

text \<open>
  In a tree at most 32 deep, every assigned code (length not 0) is the path from the
  root to the leaf of its symbol, and no assigned code is a prefix of the code of
  another symbol.
\<close>

theorem codes_within_limits:
  assumes root: "build_huffman_tree fq = Some root" and deep: "depth_of root \<le> 32"
    and i: "i < 256" and a: "len (build_code_table (Some root) ! i) \<noteq> 0"
  shows "(of_nat i, code_bits (build_code_table (Some root) ! i)) \<in> set (paths root)"
    and "j < 256 \<Longrightarrow> len (build_code_table (Some root) ! j) \<noteq> 0 \<Longrightarrow>
         prefix (code_bits (build_code_table (Some root) ! i))
                (code_bits (build_code_table (Some root) ! j)) \<Longrightarrow> i = j"
proof -
  let ?table = "build_code_table (Some root)"
  have path: "(of_nat k, code_bits (?table ! k)) \<in> set (paths root)"
    if "k < 256" "len (?table ! k) \<noteq> 0" for k
  proof -
    have pos: "fq ! k > 0"
    proof (rule ccontr)
      assume "\<not> fq ! k > 0"
      from unassigned_entry [OF root that(1) this] that(2) show False by simp
    qed
    have k: "unat (of_nat k :: byte) = k"
      using that(1) by (simp add: unat_of_nat)
    have "(ucast (of_nat k :: byte) :: 16 word) = of_nat k"
      using that(1) by (simp add: unsigned_of_nat take_bit_nat_eq_self)
    with codes_are_paths(1) [OF root deep, of "of_nat k"] pos k show ?thesis by (simp)
  qed
  from path [OF i a] show "(of_nat i, code_bits (?table ! i)) \<in> set (paths root)" .
  show "i = j" if "j < 256" "len (?table ! j) \<noteq> 0"
    "prefix (code_bits (?table ! i)) (code_bits (?table ! j))"
  proof -
    from paths_prefix [OF path [OF i a] path [OF that(1,2)] that(3)]
    have "(of_nat i :: 16 word) = of_nat j" by simp
    then have "unat (of_nat i :: 16 word) = unat (of_nat j :: 16 word)"
      by (rule arg_cong)
    moreover have "unat (of_nat i :: 16 word) = i" "unat (of_nat j :: 16 word) = j"
      using i that(1) by (simp_all add: unat_of_nat)
    ultimately show ?thesis by (simp only:)
  qed
qed

text \<open>
  If no byte value occurs \<open>2^32\<close> times or more, the entries of the table sum to the
  length of the input, which is the original size written in the header.
\<close>

theorem counts_within_limits:
  assumes "\<And>b. count_list inp b < 2 ^ 32"
  shows "sum_list (map unat (fst (count_frequencies inp))) = length inp"
    and "unat (snd (count_frequencies inp)) = length inp"
proof -
  have "map unat (map (\<lambda>i. of_nat (count_list inp (of_nat i :: byte)) :: 32 word) [0..<256]) =
        map (\<lambda>i. count_list inp (of_nat i :: byte)) [0..<256]"
    unfolding map_map comp_def
    by (rule map_cong [OF refl]) (use assms in \<open>simp add: unat_of_nat\<close>)
  then show "sum_list (map unat (fst (count_frequencies inp))) = length inp"
    by (simp only: count_frequencies_eq fst_conv sum_counts)
  show "unat (snd (count_frequencies inp)) = length inp"
    using length_bound [OF assms] by (simp add: count_frequencies_size unat_of_nat)
qed

lemma roundtrip_example:
  "fst (compress_file [0x41, 0x42, 0x42]) = None \<and>
   (\<exists>rest. decompress_file (snd (compress_file [0x41, 0x42, 0x42])) =
         (None, [0x41, 0x42, 0x42], rest))"
proof -
  have "count_list [0x41, 0x42, 0x42 :: byte] b < 2 ^ 32" for b
    by simp
  moreover have "depth_of root \<le> 32"
    if "build_huffman_tree (fst (count_frequencies [0x41, 0x42, 0x42])) = Some root" for root
  proof -
    have "count_frequencies [0x41, 0x42, 0x42] = ((replicate 256 0)[0x41 := 1, 0x42 := 2], 3)"
      by (simp add: count_frequencies_def count_step_def)
    moreover have "collect_leaves ((replicate 256 0)[0x41 := 1, 0x42 := 2]) =
        ([Node 1 True 0x41 None None, Node 2 True 0x42 None None], 2)"
      by code_simp
    ultimately show ?thesis
      using that by (auto simp: build_huffman_tree_def make_node_def)
  qed
  ultimately show ?thesis
    by (rule roundtrip)
qed

subsection \<open>One symbol\<close>

text \<open>
  A table with exactly one nonzero entry gives its symbol the code of length 1 with
  the bit 0, and an input of \<open>N\<close> copies of one byte, \<open>1 \<le> N < 2^32\<close>, comes back from
  the round trip.
\<close>

theorem single_symbol_code:
  assumes "nonzero_symbols fq = [i]"
  shows "build_code_table (build_huffman_tree fq) ! i = \<lparr>code = 0, len = 1\<rparr>"
proof -
  have "i \<in> set (nonzero_symbols fq)" using assms by simp
  then have "i < 256" by (rule nonzero_symbols_small)
  then have "unat (of_nat i :: 16 word) = i" by (simp add: unat_of_nat)
  with \<open>i < 256\<close> show ?thesis
    by (simp add: single_symbol_tree [OF assms] build_code_table_def)
qed

theorem single_symbol_roundtrip:
  assumes "1 \<le> N" and "N < 2 ^ 32"
  shows "fst (compress_file (replicate N b)) = None \<and>
         (\<exists>rest. decompress_file (snd (compress_file (replicate N b))) =
                   (None, replicate N b, rest))"
proof (rule roundtrip)
  fix x :: byte
  have "count_list (replicate N b) x \<le> length (replicate N b)"
    by (rule count_le_length)
  with assms(2) show "count_list (replicate N b) x < 2 ^ 32" by simp
next
  fix root
  assume root: "build_huffman_tree (fst (count_frequencies (replicate N b))) = Some root"
  have u: "unat (of_nat N :: 32 word) = N"
    using assms(2) by (simp add: unat_of_nat)
  with assms(1) have nz: "(of_nat N :: 32 word) \<noteq> 0"
    by (metis not_one_le_zero unat_0)
  have "fst (count_frequencies (replicate N b)) = (replicate 256 0)[unat b := of_nat N]"
    using unat_byte_less [of b]
    by (simp add: count_frequencies_def count_replicate del: fold_replicate)
  with nonzero_symbols_single [OF unat_byte_less nz, of b]
  have "nonzero_symbols (fst (count_frequencies (replicate N b))) = [unat b]"
    by (simp only:)
  from single_symbol_tree [OF this] root show "depth_of root \<le> 32"
    by auto
qed

end
